theory Spec2Isabelle
  imports
    Main
    "HOL-Library.Word"
    "HOL-Library.Multiset"
    "HOL-Library.Char_ord"
    "HOL-Library.List_Lexorder"
    "HOL-Library.AList"
begin

unbundle bit_operations_syntax

section \<open>Strings and the Node.js path module (POSIX flavour)\<close>

text \<open>
  A JavaScript string is modelled as a \<^typ>\<open>string\<close>, a list of 8-bit characters (the UTF-8
  bytes of the text; for ASCII text one character per UTF-16 code unit).  The backend runs on
  Linux, so \<open>path\<close> is \<open>path.posix\<close>: the only separator is the forward slash and a backslash
  is an ordinary character.  The functions of this section are library functions of Node.js;
  they are written after the algorithm of \<open>lib/path.js\<close>.
\<close>

text \<open>\<open>Array.prototype.join(sep)\<close> on an array of strings.\<close>

fun join_with :: "string \<Rightarrow> string list \<Rightarrow> string" where
  "join_with s [] = []"
| "join_with s [x] = x"
| "join_with s (x # y # ys) = x @ s @ join_with s (y # ys)"

text \<open>\<open>String.prototype.endsWith\<close>.\<close>

definition endsWith :: "string \<Rightarrow> string \<Rightarrow> bool" where
  "endsWith str suf \<longleftrightarrow> length suf \<le> length str \<and> drop (length str - length suf) str = suf"

text \<open>The pieces of a path between its slashes: \<open>segments ''a//b''\<close> is \<open>[''a'', '''', ''b'']\<close>.\<close>

fun segments :: "string \<Rightarrow> string list" where
  "segments [] = [[]]"
| "segments (c # cs) =
     (if c = CHR ''/'' then [] # segments cs
      else (case segments cs of [] \<Rightarrow> [[c]] | s # ss \<Rightarrow> (c # s) # ss))"

text \<open>
  \<open>normalizeString(path, allowAboveRoot, '/', isPosixPathSeparator)\<close>: the scan keeps the
  result built so far; an empty segment or \<open>.\<close> is dropped, \<open>..\<close> removes the last kept segment
  unless there is none or it is itself \<open>..\<close>, in which case \<open>..\<close> is kept when
  \<open>allowAboveRoot\<close> holds and dropped otherwise; any other segment is appended.
\<close>

definition normalize_segment :: "bool \<Rightarrow> string list \<Rightarrow> string \<Rightarrow> string list" where
  "normalize_segment allowAboveRoot res seg =
     (if seg = [] \<or> seg = ''.'' then res
      else if seg = ''..'' then
        (if res \<noteq> [] \<and> last res \<noteq> ''..'' then butlast res
         else if allowAboveRoot then res @ [''..'']
         else res)
      else res @ [seg])"

definition normalizeString :: "string \<Rightarrow> bool \<Rightarrow> string" where
  "normalizeString path allowAboveRoot =
     join_with ''/'' (foldl (normalize_segment allowAboveRoot) [] (segments path))"

text \<open>\<open>path.normalize\<close>.\<close>

definition path_normalize :: "string \<Rightarrow> string" where
  "path_normalize path =
     (if path = [] then ''.''
      else
        let isAbsolute = (hd path = CHR ''/'');
            trailingSeparator = (last path = CHR ''/'');
            p = normalizeString path (\<not> isAbsolute)
        in if p = [] then (if isAbsolute then ''/'' else if trailingSeparator then ''./'' else ''.'')
           else (if isAbsolute then ''/'' else []) @ p @ (if trailingSeparator then ''/'' else []))"

text \<open>\<open>path.join(...args)\<close>: the non-empty arguments joined by a slash, then normalized.\<close>

definition path_join :: "string list \<Rightarrow> string" where
  "path_join args =
     (let joined = filter (\<lambda>arg. arg \<noteq> []) args
      in if joined = [] then ''.'' else path_normalize (join_with ''/'' joined))"

text \<open>
  \<open>path.basename(path)\<close>: trailing slashes are ignored, the result is what follows the last
  remaining slash (the empty string for a path of slashes only).
\<close>

definition path_basename :: "string \<Rightarrow> string" where
  "path_basename path =
     rev (takeWhile (\<lambda>c. c \<noteq> CHR ''/'') (dropWhile (\<lambda>c. c = CHR ''/'') (rev path)))"

text \<open>
  \<open>path.extname(path)\<close>, the loop of \<open>lib/path.js\<close> run from the last character to the
  first; \<open>None\<close> stands for the index \<open>-1\<close>.
\<close>

record ext_scan =
  startDot :: "nat option"
  startPart :: nat
  endIdx :: "nat option"
  matchedSlash :: bool
  preDotState :: int

fun extname_scan :: "(nat \<times> char) list \<Rightarrow> ext_scan \<Rightarrow> ext_scan" where
  "extname_scan [] st = st"
| "extname_scan ((i, code) # rest) st =
     (if code = CHR ''/'' then
        (if \<not> matchedSlash st then st\<lparr>startPart := i + 1\<rparr>
         else extname_scan rest st)
      else
        (let st1 = (if endIdx st = None then st\<lparr>matchedSlash := False, endIdx := Some (i + 1)\<rparr>
                    else st);
             st2 = (if code = CHR ''.'' then
                      (if startDot st1 = None then st1\<lparr>startDot := Some i\<rparr>
                       else if preDotState st1 \<noteq> 1 then st1\<lparr>preDotState := 1\<rparr>
                       else st1)
                    else if startDot st1 \<noteq> None then st1\<lparr>preDotState := - 1\<rparr>
                    else st1)
         in extname_scan rest st2))"

fun indexed_from :: "nat \<Rightarrow> 'a list \<Rightarrow> (nat \<times> 'a) list" where
  "indexed_from i [] = []"
| "indexed_from i (x # xs) = (i, x) # indexed_from (Suc i) xs"

definition path_extname :: "string \<Rightarrow> string" where
  "path_extname path =
     (let st = extname_scan (rev (indexed_from 0 path))
                 \<lparr>startDot = None, startPart = 0, endIdx = None, matchedSlash = True,
                  preDotState = 0\<rparr>
      in case (startDot st, endIdx st) of
           (Some sd, Some e) \<Rightarrow>
             (if preDotState st = 0 \<or> (preDotState st = 1 \<and> sd = e - 1 \<and> sd = startPart st + 1)
              then []
              else take (e - sd) (drop sd path))
         | _ \<Rightarrow> [])"

text \<open>
  \<open>String.prototype.toLowerCase\<close> on the ASCII letters.  The extensions it is compared with
  are ASCII and no other character lower-cases to one of their letters, so the comparison in
  \<open>isValidImageFile\<close> is not affected by the restriction.
\<close>

definition lower_char :: "char \<Rightarrow> char" where
  "lower_char c =
     (let n = (of_char c :: nat) in if 65 \<le> n \<and> n \<le> 90 then char_of (n + 32) else c)"

definition toLowerCase :: "string \<Rightarrow> string" where
  "toLowerCase s = map lower_char s"


section \<open>PhotosConfigService\<close>

definition supportedImageExtensions :: "string list" where
  "supportedImageExtensions =
     [''.jpg'', ''.jpeg'', ''.png'', ''.tiff'', ''.tif'', ''.webp'', ''.bmp'']"

text \<open>The default of the configuration key \<open>PHOTOS_BASE_PATH\<close>.\<close>

definition defaultPhotosBasePath :: string where
  "defaultPhotosBasePath = ''/mnt/psd''"

definition isValidImageFile :: "string \<Rightarrow> bool" where
  "isValidImageFile filename \<longleftrightarrow>
     toLowerCase (path_extname filename) \<in> set supportedImageExtensions"

text \<open>\<open>.replace(/^(\.\.[/\\])+/, '')\<close>: every leading \<open>../\<close> or \<open>..\\<close> is removed.\<close>

fun strip_leading_dotdot :: "string \<Rightarrow> string" where
  "strip_leading_dotdot (a # b # c # rest) =
     (if a = CHR ''.'' \<and> b = CHR ''.'' \<and> (c = CHR ''/'' \<or> c = CHR 0x5C)
      then strip_leading_dotdot rest
      else a # b # c # rest)"
| "strip_leading_dotdot s = s"

text \<open>\<open>.replace(/^[/\\]+/, '')\<close>: the leading slashes and backslashes are removed.\<close>

definition strip_leading_separators :: "string \<Rightarrow> string" where
  "strip_leading_separators s = dropWhile (\<lambda>c. c = CHR ''/'' \<or> c = CHR 0x5C) s"

definition sanitizePath :: "string \<Rightarrow> string" where
  "sanitizePath relativePath =
     (let sanitized = strip_leading_dotdot (path_normalize relativePath)
      in strip_leading_separators sanitized)"

text \<open>
  \<open>getFullPhotoPath\<close>; the first argument is the value of \<open>getPhotosBasePath()\<close>.
\<close>

definition getFullPhotoPath :: "string \<Rightarrow> string \<Rightarrow> string" where
  "getFullPhotoPath photosBasePath relativePath =
     path_join [photosBasePath, sanitizePath relativePath]"

text \<open>
  The photo tree as the service sees it: what \<open>fs.promises.access(p, R_OK)\<close>,
  \<open>fs.promises.stat(p)\<close> and \<open>fs.promises.readdir(p)\<close> answer for a path.
\<close>

datatype fs_node =
  Missing
  | Unreadable
  | PlainFile
  | Directory "string list"
  | FailingDirectory

type_synonym photo_fs = "string \<Rightarrow> fs_node"

definition checkDirectoryExists :: "photo_fs \<Rightarrow> string \<Rightarrow> bool" where
  "checkDirectoryExists pfs fullPath =
     (case pfs fullPath of
        Directory names \<Rightarrow> True
      | FailingDirectory \<Rightarrow> True
      | _ \<Rightarrow> False)"

text \<open>\<open>fs.promises.readdir\<close>: \<open>None\<close> when the call rejects.\<close>

definition photo_readdir :: "photo_fs \<Rightarrow> string \<Rightarrow> string list option" where
  "photo_readdir pfs fullPath =
     (case pfs fullPath of Directory names \<Rightarrow> Some names | _ \<Rightarrow> None)"


section \<open>FileProcessingService\<close>

text \<open>
  The service of \<open>src/unnamed/part_006\<close>.  The archiver is modelled by the entries queued
  with \<open>zipArchiver.file(filePath, {name})\<close>, in the order of the calls, and the logger by the
  lines that tell a skip from an inclusion.
\<close>

type_synonym zip_entry = "string \<times> string"

datatype log_line =
  DirectoryNotFound string
  | AddedFiles nat string
  | ErrorProcessingDirectory string
  | ProcessingDirectory string string

datatype assembly_error = SinkFailure

definition zipEntryPath :: "string \<Rightarrow> string \<Rightarrow> string" where
  "zipEntryPath relativeDirPath fileName =
     (let lastDirName = path_basename relativeDirPath
      in path_join [lastDirName, fileName])"

definition addSingleFileToArchive ::
  "string \<Rightarrow> string \<Rightarrow> string \<Rightarrow> zip_entry list \<Rightarrow> bool \<times> zip_entry list" where
  "addSingleFileToArchive fileName basePath relativeDirPath archive =
     (let filePath = path_join [basePath, fileName]
      in (True, archive @ [(filePath, zipEntryPath relativeDirPath fileName)]))"

fun addFilesToArchive ::
  "string list \<Rightarrow> string \<Rightarrow> string \<Rightarrow> zip_entry list \<Rightarrow> nat \<times> zip_entry list" where
  "addFilesToArchive [] fullPath relativeDirPath archive = (0, archive)"
| "addFilesToArchive (file # files) fullPath relativeDirPath archive =
     (case addSingleFileToArchive file fullPath relativeDirPath archive of
        (added, archive1) \<Rightarrow>
          (case addFilesToArchive files fullPath relativeDirPath archive1 of
             (n, archive2) \<Rightarrow> ((if added then 1 else 0) + n, archive2)))"

definition getImageFiles :: "photo_fs \<Rightarrow> string \<Rightarrow> string list option" where
  "getImageFiles pfs fullPath =
     map_option (filter isValidImageFile) (photo_readdir pfs fullPath)"

definition processDirectory ::
  "string \<Rightarrow> photo_fs \<Rightarrow> string \<Rightarrow> zip_entry list \<times> log_line list
     \<Rightarrow> zip_entry list \<times> log_line list" where
  "processDirectory photosBasePath pfs dirPath st =
     (case st of (archive, logs) \<Rightarrow>
        (let fullPath = getFullPhotoPath photosBasePath dirPath
         in if \<not> checkDirectoryExists pfs fullPath
            then (archive, logs @ [DirectoryNotFound fullPath])
            else (case getImageFiles pfs fullPath of
                    None \<Rightarrow> (archive, logs @ [ErrorProcessingDirectory dirPath])
                  | Some imageFiles \<Rightarrow>
                      (case addFilesToArchive imageFiles fullPath dirPath archive of
                         (addedCount, archive1) \<Rightarrow>
                           (archive1, logs @ [AddedFiles addedCount dirPath])))))"

text \<open>
  \<open>processDirectories\<close> starts \<open>processDirectory\<close> for every directory and awaits them all
  (\<open>Promise.all\<close>).  Each call awaits the file system (\<open>access\<close>, \<open>stat\<close>, \<open>readdir\<close>) before it
  queues its files and writes its log line, so the calls get there in an order that the
  environment decides: \<open>completionOrder\<close>, a permutation of the request (a list that is not
  one is ignored and the request order taken).  The files of one directory are queued in
  one go, since nothing is awaited between the calls of \<open>zipArchiver.file\<close>.
\<close>

definition processDirectories ::
  "string \<Rightarrow> photo_fs \<Rightarrow> string list \<Rightarrow> string list \<Rightarrow> zip_entry list \<times> log_line list" where
  "processDirectories photosBasePath pfs directoryPaths completionOrder =
     (let completed = (if mset completionOrder = mset directoryPaths then completionOrder
                       else directoryPaths)
      in foldl (\<lambda>st dirPath. processDirectory photosBasePath pfs dirPath st) ([], []) completed)"

text \<open>
  \<open>processDirectoriesAsync\<close>: the directories, then \<open>zipArchiver.finalize()\<close>.  The flag
  says whether the sink accepts the archive; when it does not, the stream is destroyed and
  the promise rejects.
\<close>

definition processDirectoriesAsync ::
  "string \<Rightarrow> photo_fs \<Rightarrow> string list \<Rightarrow> string list \<Rightarrow> bool
     \<Rightarrow> assembly_error + (zip_entry list \<times> log_line list)" where
  "processDirectoriesAsync photosBasePath pfs directoryPaths completionOrder sinkOk =
     (let result = processDirectories photosBasePath pfs directoryPaths completionOrder
      in if sinkOk then Inr result else Inl SinkFailure)"

text \<open>
  The service of \<open>src/apps/backend/src/transfer/services/file-processing.service.ts\<close> adds a
  directory with one call \<open>zipArchiver.directory(fullPath, lastDirName, filter)\<close>, where the
  filter keeps the entries whose name passes \<open>isValidImageFile\<close>.  The archiver library is
  not part of the repository; the model records the call by its directory and its
  destination prefix.  Its \<open>processDirectories\<close> is the same \<open>Promise.all\<close>.
\<close>

type_synonym directory_request = "string \<times> string"

definition processDirectory_directory ::
  "string \<Rightarrow> photo_fs \<Rightarrow> string \<Rightarrow> directory_request list \<times> log_line list
     \<Rightarrow> directory_request list \<times> log_line list" where
  "processDirectory_directory photosBasePath pfs dirPath st =
     (case st of (requests, logs) \<Rightarrow>
        (let fullPath = getFullPhotoPath photosBasePath dirPath
         in if \<not> checkDirectoryExists pfs fullPath
            then (requests, logs @ [DirectoryNotFound fullPath])
            else (let lastDirName = path_basename dirPath
                  in (requests @ [(fullPath, lastDirName)],
                      logs @ [ProcessingDirectory dirPath lastDirName]))))"

definition processDirectories_directory ::
  "string \<Rightarrow> photo_fs \<Rightarrow> string list \<Rightarrow> string list
     \<Rightarrow> directory_request list \<times> log_line list" where
  "processDirectories_directory photosBasePath pfs directoryPaths completionOrder =
     (let completed = (if mset completionOrder = mset directoryPaths then completionOrder
                       else directoryPaths)
      in foldl (\<lambda>st dirPath. processDirectory_directory photosBasePath pfs dirPath st) ([], [])
           completed)"

text \<open>\<open>readdir\<close> lists names, and a name has no slash.\<close>

definition wf_photo_fs :: "photo_fs \<Rightarrow> bool" where
  "wf_photo_fs pfs \<longleftrightarrow>
     (\<forall>p names. pfs p = Directory names \<longrightarrow> (\<forall>file \<in> set names. CHR ''/'' \<notin> set file))"


text \<open>
  What one directory contributes: the eligible files of a readable directory, each under
  its source path and its archive path, and the log line written for the directory.
\<close>

definition directoryEntries :: "string \<Rightarrow> photo_fs \<Rightarrow> string \<Rightarrow> zip_entry list" where
  "directoryEntries photosBasePath pfs dirPath =
     (let fullPath = getFullPhotoPath photosBasePath dirPath
      in case pfs fullPath of
           Directory names \<Rightarrow>
             map (\<lambda>file. (path_join [fullPath, file], zipEntryPath dirPath file))
               (filter isValidImageFile names)
         | _ \<Rightarrow> [])"

definition directoryLog :: "string \<Rightarrow> photo_fs \<Rightarrow> string \<Rightarrow> log_line" where
  "directoryLog photosBasePath pfs dirPath =
     (let fullPath = getFullPhotoPath photosBasePath dirPath
      in case pfs fullPath of
           Directory names \<Rightarrow> AddedFiles (length (filter isValidImageFile names)) dirPath
         | FailingDirectory \<Rightarrow> ErrorProcessingDirectory dirPath
         | _ \<Rightarrow> DirectoryNotFound fullPath)"

text \<open>A photo tree with one directory, used for the concrete instances below.\<close>

definition example_photo_fs :: photo_fs where
  "example_photo_fs =
     (\<lambda>p. if p = ''/mnt/psd/events/wedding'' then Directory [''a.jpg'', ''notes.txt'', ''b.PNG'']
          else Missing)"


section \<open>The digest behind the cache key\<close>

text \<open>
  \<open>crypto.createHash('sha256').update(s).digest('hex')\<close> is SHA-256 (FIPS 180-4) of the
  bytes of \<open>s\<close>, printed as 64 lower-case hexadecimal digits; it is a function of the Node.js
  library, written here from the standard.  A 32-bit word is a natural number below
  \<open>2 ^ 32\<close>; addition wraps with the modulus written out.
\<close>

text \<open>
  The round constants are the first 32 bits of the fractional parts of the cube roots of
  the first 64 primes, the initial hash value those of the square roots of the first 8
  primes.  Both tables are written in decimal; \<open>K256_is_cube_root_table\<close> and
  \<open>H256_init_is_square_root_table\<close> below check them against this description.
\<close>

definition first_primes :: "nat list" where
  "first_primes =
    [2, 3, 5, 7, 11, 13, 17, 19, 23, 29, 31, 37, 41, 43, 47, 53, 59, 61, 67, 71, 73,
     79, 83, 89, 97, 101, 103, 107, 109, 113, 127, 131, 137, 139, 149, 151, 157, 163,
     167, 173, 179, 181, 191, 193, 197, 199, 211, 223, 227, 229, 233, 239, 241, 251,
     257, 263, 269, 271, 277, 281, 283, 293, 307, 311]"

definition K256 :: "nat list" where
  "K256 =
    [1116352408, 1899447441, 3049323471, 3921009573, 961987163, 1508970993, 2453635748,
     2870763221, 3624381080, 310598401, 607225278, 1426881987, 1925078388, 2162078206,
     2614888103, 3248222580, 3835390401, 4022224774, 264347078, 604807628, 770255983,
     1249150122, 1555081692, 1996064986, 2554220882, 2821834349, 2952996808,
     3210313671, 3336571891, 3584528711, 113926993, 338241895, 666307205, 773529912,
     1294757372, 1396182291, 1695183700, 1986661051, 2177026350, 2456956037,
     2730485921, 2820302411, 3259730800, 3345764771, 3516065817, 3600352804,
     4094571909, 275423344, 430227734, 506948616, 659060556, 883997877, 958139571,
     1322822218, 1537002063, 1747873779, 1955562222, 2024104815, 2227730452,
     2361852424, 2428436474, 2756734187, 3204031479, 3329325298]"

definition H256_init :: "nat list" where
  "H256_init =
    [1779033703, 3144134277, 1013904242, 2773480762, 1359893119, 2600822924, 528734635,
     1541459225]"

text \<open>
  \<open>int_root n p\<close> is the integer part of the \<open>n\<close>-th root of \<open>p\<close>, for a root below 19, and
  \<open>root_bits n p k\<close> says that \<open>k\<close> holds the first 32 fractional bits of that root: with
  \<open>r = int_root n p * 2 ^ 32 + k\<close>, \<open>r ^ n \<le> p * 2 ^ (32 * n) < (r + 1) ^ n\<close>.
\<close>

definition int_root :: "nat \<Rightarrow> nat \<Rightarrow> nat" where
  "int_root n p =
     length (filter (\<lambda>i. i ^ n \<le> p) [1, 2, 3, 4, 5, 6, 7, 8, 9, 10, 11, 12, 13, 14, 15, 16, 17, 18])"

definition root_bits :: "nat \<Rightarrow> nat \<Rightarrow> nat \<Rightarrow> bool" where
  "root_bits n p k \<longleftrightarrow>
     k < 2 ^ 32 \<and>
     (let r = int_root n p * 2 ^ 32 + k
      in r ^ n \<le> p * 2 ^ (32 * n) \<and> p * 2 ^ (32 * n) < (r + 1) ^ n)"

definition add32 :: "nat \<Rightarrow> nat \<Rightarrow> nat" where
  "add32 x y = (x + y) mod 4294967296"

definition rotr32 :: "nat \<Rightarrow> nat \<Rightarrow> nat" where
  "rotr32 n x = x div 2 ^ n + (x mod 2 ^ n) * 2 ^ (32 - n)"

definition sha_ch :: "nat \<Rightarrow> nat \<Rightarrow> nat \<Rightarrow> nat" where
  "sha_ch x y z = (x AND y) XOR ((4294967295 - x) AND z)"

definition sha_maj :: "nat \<Rightarrow> nat \<Rightarrow> nat \<Rightarrow> nat" where
  "sha_maj x y z = (x AND y) XOR (x AND z) XOR (y AND z)"

definition big_sigma0 :: "nat \<Rightarrow> nat" where
  "big_sigma0 x = rotr32 2 x XOR rotr32 13 x XOR rotr32 22 x"

definition big_sigma1 :: "nat \<Rightarrow> nat" where
  "big_sigma1 x = rotr32 6 x XOR rotr32 11 x XOR rotr32 25 x"

definition small_sigma0 :: "nat \<Rightarrow> nat" where
  "small_sigma0 x = rotr32 7 x XOR rotr32 18 x XOR x div 2 ^ 3"

definition small_sigma1 :: "nat \<Rightarrow> nat" where
  "small_sigma1 x = rotr32 17 x XOR rotr32 19 x XOR x div 2 ^ 10"

text \<open>
  The message schedule, newest word first: \<open>ws ! 0\<close> is \<open>W(t-1)\<close>, so \<open>W(t-2)\<close>,
  \<open>W(t-7)\<close>, \<open>W(t-15)\<close> and \<open>W(t-16)\<close> are at the indices 1, 6, 14 and 15.
\<close>

fun extend_schedule :: "nat \<Rightarrow> nat list \<Rightarrow> nat list" where
  "extend_schedule 0 ws = ws"
| "extend_schedule (Suc n) ws =
     extend_schedule n
       (add32 (add32 (add32 (small_sigma1 (ws ! 1)) (ws ! 6)) (small_sigma0 (ws ! 14))) (ws ! 15)
        # ws)"

fun sha_round :: "nat list \<Rightarrow> nat \<times> nat \<Rightarrow> nat list" where
  "sha_round [a, b, c, d, e, f, g, h] (k, w) =
     (let t1 = add32 (add32 (add32 (add32 h (big_sigma1 e)) (sha_ch e f g)) k) w;
          t2 = add32 (big_sigma0 a) (sha_maj a b c)
      in [add32 t1 t2, a, b, c, add32 d t1, e, f, g])"
| "sha_round st kw = st"

definition sha_compress :: "nat list \<Rightarrow> nat list \<Rightarrow> nat list" where
  "sha_compress hs block =
     map2 add32 hs (foldl sha_round hs (zip K256 (rev (extend_schedule 48 (rev block)))))"

fun be_words :: "nat list \<Rightarrow> nat list" where
  "be_words (a # b # c # d # rest) = (((a * 256 + b) * 256 + c) * 256 + d) # be_words rest"
| "be_words bs = []"

fun be_bytes :: "nat \<Rightarrow> nat \<Rightarrow> nat list" where
  "be_bytes 0 v = []"
| "be_bytes (Suc n) v = be_bytes n (v div 256) @ [v mod 256]"

definition sha_pad :: "nat list \<Rightarrow> nat list" where
  "sha_pad bs =
     bs @ [128] @ replicate ((119 - length bs mod 64) mod 64) 0 @ be_bytes 8 (8 * length bs)"

fun blocks16 :: "nat \<Rightarrow> nat list \<Rightarrow> nat list list" where
  "blocks16 0 ws = []"
| "blocks16 (Suc n) ws = take 16 ws # blocks16 n (drop 16 ws)"

definition sha256 :: "string \<Rightarrow> nat list" where
  "sha256 msg =
     (let ws = be_words (sha_pad (map of_char msg))
      in foldl sha_compress H256_init (blocks16 (length ws div 16) ws))"

definition hex_digit :: "nat \<Rightarrow> char" where
  "hex_digit n = ''0123456789abcdef'' ! n"

fun hex_nat :: "nat \<Rightarrow> nat \<Rightarrow> string" where
  "hex_nat 0 v = []"
| "hex_nat (Suc n) v = hex_nat n (v div 16) @ [hex_digit (v mod 16)]"

definition sha256_hex :: "string \<Rightarrow> string" where
  "sha256_hex msg = concat (map (hex_nat 8) (sha256 msg))"


section \<open>SimpleCacheService: state\<close>

definition cacheDirectory :: string where
  "cacheDirectory = ''/tmp/photo-cache''"

definition maxCacheSizeMB :: int where
  "maxCacheSizeMB = 5000"

definition maxRecentOrders :: nat where
  "maxRecentOrders = 20"

definition maxCacheAgeHours :: int where
  "maxCacheAgeHours = 24"

text \<open>
  A file of the cache volume: what \<open>stat\<close> reports (size in bytes and modification time in
  milliseconds, both JavaScript numbers with integer values) and what has been written into it (the archive entries, and whether the
  archive was finalized, that is, whether its central directory has been written).
\<close>

record file_node =
  fsize :: int
  fmtime :: int
  fentries :: "zip_entry list"
  ffinalized :: bool

text \<open>
  The file system maps the absolute path of a file to the file; the order of the list is the
  order in which \<open>readdir\<close> lists names.
\<close>

type_synonym file_system = "(string \<times> file_node) list"

text \<open>
  The state the service works on: the files, the entries of the in-memory cache manager
  (cache key to archive path, and the two counters \<open>cache:stats:hits\<close> and
  \<open>cache:stats:misses\<close>, which live under keys no cache key can equal), and the outcomes of
  the coming calls of the cache manager: \<open>True\<close> at the head means the next call throws.
  Expiry of cache-manager entries after the 24 hour TTL is not modelled; it only removes
  entries.
\<close>

record cache_state =
  files :: file_system
  mem :: "(string \<times> string) list"
  counters :: "(string \<times> nat) list"
  faults :: "bool list"

datatype cache_error = CacheManagerError

definition fileExists :: "cache_state \<Rightarrow> string \<Rightarrow> bool" where
  "fileExists s filePath \<longleftrightarrow> map_of (files s) filePath \<noteq> None"

text \<open>\<open>fs.promises.stat\<close>; \<open>None\<close> when the call rejects.\<close>

definition fs_stat :: "cache_state \<Rightarrow> string \<Rightarrow> file_node option" where
  "fs_stat s filePath = map_of (files s) filePath"

text \<open>\<open>fs.promises.unlink\<close>; \<open>None\<close> when the call rejects (no such file).\<close>

definition fs_unlink :: "string \<Rightarrow> cache_state \<Rightarrow> cache_state option" where
  "fs_unlink filePath s =
     (if map_of (files s) filePath = None then None
      else Some (s\<lparr>files := AList.delete filePath (files s)\<rparr>))"

text \<open>Opening a write stream creates the file or replaces its content; then it is written.\<close>

definition fs_write :: "string \<Rightarrow> file_node \<Rightarrow> cache_state \<Rightarrow> cache_state" where
  "fs_write filePath node s = s\<lparr>files := AList.update filePath node (files s)\<rparr>"

text \<open>\<open>fs.promises.rename\<close> of an existing file: the target is replaced.\<close>

definition fs_rename :: "string \<Rightarrow> string \<Rightarrow> cache_state \<Rightarrow> cache_state" where
  "fs_rename oldPath newPath s =
     (case map_of (files s) oldPath of
        None \<Rightarrow> s
      | Some node \<Rightarrow>
          s\<lparr>files := AList.update newPath node (AList.delete oldPath (files s))\<rparr>)"

text \<open>The name of a file directly inside a directory, from its path.\<close>

definition child_name :: "string \<Rightarrow> string \<Rightarrow> string option" where
  "child_name dir filePath =
     (let pre = dir @ ''/''
      in if length pre < length filePath \<and> take (length pre) filePath = pre
            \<and> CHR ''/'' \<notin> set (drop (length pre) filePath)
         then Some (drop (length pre) filePath)
         else None)"

definition fs_readdir :: "cache_state \<Rightarrow> string \<Rightarrow> string list" where
  "fs_readdir s dir = List.map_filter (child_name dir) (map fst (files s))"

definition next_fault :: "cache_state \<Rightarrow> bool \<times> cache_state" where
  "next_fault s =
     (case faults s of [] \<Rightarrow> (False, s) | b # bs \<Rightarrow> (b, s\<lparr>faults := bs\<rparr>))"

definition cm_get :: "string \<Rightarrow> cache_state \<Rightarrow> (cache_error + string option) \<times> cache_state" where
  "cm_get key s =
     (case next_fault s of
        (True, s1) \<Rightarrow> (Inl CacheManagerError, s1)
      | (False, s1) \<Rightarrow> (Inr (map_of (mem s1) key), s1))"

definition cm_set :: "string \<Rightarrow> string \<Rightarrow> cache_state \<Rightarrow> (cache_error + unit) \<times> cache_state" where
  "cm_set key v s =
     (case next_fault s of
        (True, s1) \<Rightarrow> (Inl CacheManagerError, s1)
      | (False, s1) \<Rightarrow> (Inr (), s1\<lparr>mem := AList.update key v (mem s1)\<rparr>))"

definition cm_del :: "string \<Rightarrow> cache_state \<Rightarrow> (cache_error + unit) \<times> cache_state" where
  "cm_del key s =
     (case next_fault s of
        (True, s1) \<Rightarrow> (Inl CacheManagerError, s1)
      | (False, s1) \<Rightarrow> (Inr (), s1\<lparr>mem := AList.delete key (mem s1)\<rparr>))"

definition counter_get :: "string \<Rightarrow> cache_state \<Rightarrow> (cache_error + nat option) \<times> cache_state" where
  "counter_get key s =
     (case next_fault s of
        (True, s1) \<Rightarrow> (Inl CacheManagerError, s1)
      | (False, s1) \<Rightarrow> (Inr (map_of (counters s1) key), s1))"

definition counter_set :: "string \<Rightarrow> nat \<Rightarrow> cache_state \<Rightarrow> (cache_error + unit) \<times> cache_state" where
  "counter_set key v s =
     (case next_fault s of
        (True, s1) \<Rightarrow> (Inl CacheManagerError, s1)
      | (False, s1) \<Rightarrow> (Inr (), s1\<lparr>counters := AList.update key v (counters s1)\<rparr>))"

definition counter_del :: "string \<Rightarrow> cache_state \<Rightarrow> (cache_error + unit) \<times> cache_state" where
  "counter_del key s =
     (case next_fault s of
        (True, s1) \<Rightarrow> (Inl CacheManagerError, s1)
      | (False, s1) \<Rightarrow> (Inr (), s1\<lparr>counters := AList.delete key (counters s1)\<rparr>))"


section \<open>SimpleCacheService: operations\<close>

text \<open>
  \<open>bytesToMB\<close> is \<open>Math.round((bytes / 1024 / 1024) * 100) / 100\<close>.  The model returns the
  numerator, the size in hundredths of a megabyte.  For a byte count below \<open>2 ^ 53 / 25\<close>
  every intermediate value of the floating-point computation is exact up to the rounding
  (\<open>bytes * 100 / 2 ^ 20 = bytes * 25 / 2 ^ 18\<close> with an integer numerator below \<open>2 ^ 53\<close>),
  and \<open>Math.round\<close> rounds a half upwards, so the numerator is
  \<open>\<lfloor>bytes * 25 / 2 ^ 18 + 1 / 2\<rfloor>\<close>.  A comparison \<open>bytesToMB(x) <= maxCacheSizeMB\<close> of the
  source is the comparison of the numerator with \<open>100 * maxCacheSizeMB\<close>.
\<close>

definition bytesToMB :: "int \<Rightarrow> int" where
  "bytesToMB bytes = (bytes * 25 + 131072) div 262144"

text \<open>
  \<open>generateCacheKey\<close>: the default \<open>sort()\<close> orders strings by their UTF-16 code units.  A
  string is modelled by the list of its bytes, so for identifiers of ASCII characters this
  is the lexicographic order of the character lists; outside ASCII the two orders can
  differ.  \<open>substring(0, 16)\<close> keeps the first 16 digits.
\<close>

definition generateCacheKey :: "string list \<Rightarrow> string" where
  "generateCacheKey directoryPaths =
     (let sorted = sort directoryPaths;
          combined = join_with ''|'' sorted
      in take 16 (sha256_hex combined))"

definition getZipPath :: "string list \<Rightarrow> string" where
  "getZipPath directoryPaths =
     (let cacheKey = generateCacheKey directoryPaths
      in path_join [cacheDirectory, cacheKey @ ''.zip''])"

definition getZipFiles :: "cache_state \<Rightarrow> string list" where
  "getZipFiles s = filter (\<lambda>file. endsWith file ''.zip'') (fs_readdir s cacheDirectory)"

record cache_file_info =
  ci_name :: string
  ci_path :: string
  ci_size :: int
  ci_mtime :: int

fun collectFileInfos :: "cache_state \<Rightarrow> string list \<Rightarrow> cache_file_info list" where
  "collectFileInfos s [] = []"
| "collectFileInfos s (file # rest) =
     (let filePath = path_join [cacheDirectory, file]
      in case fs_stat s filePath of
           None \<Rightarrow> collectFileInfos s rest
         | Some stats \<Rightarrow>
             \<lparr>ci_name = file, ci_path = filePath, ci_size = fsize stats, ci_mtime = fmtime stats\<rparr>
             # collectFileInfos s rest)"

definition getCacheFileInfos :: "cache_state \<Rightarrow> cache_file_info list" where
  "getCacheFileInfos s = collectFileInfos s (getZipFiles s)"

text \<open>
  \<open>incrementStat\<close>: a failure of the cache manager is caught and logged, so the function
  always returns normally.
\<close>

definition incrementStat :: "string \<Rightarrow> cache_state \<Rightarrow> cache_state" where
  "incrementStat statType s =
     (let key = ''cache:stats:'' @ statType
      in case counter_get key s of
           (Inl e, s1) \<Rightarrow> s1
         | (Inr v, s1) \<Rightarrow>
             (let current = (case v of None \<Rightarrow> 0 | Some n \<Rightarrow> n)
              in snd (counter_set key (current + 1) s1)))"

text \<open>
  \<open>getCachedZip\<close>.  The \<open>try\<close> block is \<open>getCachedZip_try\<close>: \<open>Inl\<close> is a throw of the cache
  manager, \<open>Inr\<close> the value returned.  A cached value counts when it is truthy, that is, a
  non-empty string.
\<close>

definition getCachedZip_filesystem ::
  "string \<Rightarrow> string \<Rightarrow> cache_state \<Rightarrow> (cache_error + string option) \<times> cache_state" where
  "getCachedZip_filesystem cacheKey zipPath s =
     (if fileExists s zipPath then
        (case cm_set cacheKey zipPath s of
           (Inl e, s1) \<Rightarrow> (Inl e, s1)
         | (Inr u, s1) \<Rightarrow> (Inr (Some zipPath), incrementStat ''hits'' s1))
      else (Inr None, incrementStat ''misses'' s))"

definition getCachedZip_try ::
  "string \<Rightarrow> string \<Rightarrow> cache_state \<Rightarrow> (cache_error + string option) \<times> cache_state" where
  "getCachedZip_try cacheKey zipPath s =
     (case cm_get cacheKey s of
        (Inl e, s1) \<Rightarrow> (Inl e, s1)
      | (Inr None, s1) \<Rightarrow> getCachedZip_filesystem cacheKey zipPath s1
      | (Inr (Some cached), s1) \<Rightarrow>
          (if cached = [] then getCachedZip_filesystem cacheKey zipPath s1
           else if fileExists s1 cached then (Inr (Some cached), incrementStat ''hits'' s1)
           else (case cm_del cacheKey s1 of
                   (Inl e, s2) \<Rightarrow> (Inl e, s2)
                 | (Inr u, s2) \<Rightarrow> getCachedZip_filesystem cacheKey zipPath s2)))"

definition getCachedZip :: "string list \<Rightarrow> cache_state \<Rightarrow> string option \<times> cache_state" where
  "getCachedZip directoryPaths s =
     (let cacheKey = generateCacheKey directoryPaths;
          zipPath = getZipPath directoryPaths
      in case getCachedZip_try cacheKey zipPath s of
           (Inr result, s1) \<Rightarrow> (result, s1)
         | (Inl e, s1) \<Rightarrow> (if fileExists s1 zipPath then (Some zipPath, s1) else (None, s1)))"

text \<open>
  \<open>generateZipFile\<close>.  What the environment decides is given by a \<open>gen_env\<close>: whether the
  write stream on the temporary file opens, in which order the directories complete, whether
  the sink takes the whole archive (if not, how many entries reached the file), whether the
  rename succeeds, and the size and time \<open>stat\<close> will report for what was written.  The \<open>finish\<close> event of the write stream is
  raised only when the archive has been finalized and flushed; the rename and the
  registration with the cache manager are in its handler.
\<close>

record gen_env =
  openOk :: bool
  sinkOk :: bool
  assemblyOrder :: "string list"
  partialEntries :: nat
  renameOk :: bool
  writtenSize :: int
  writeTime :: int

datatype gen_error = OpenError | StreamError | RenameError | CacheSetError

definition generateZipFile ::
  "string \<Rightarrow> photo_fs \<Rightarrow> gen_env \<Rightarrow> string list \<Rightarrow> string \<Rightarrow> cache_state
     \<Rightarrow> (gen_error + unit) \<times> cache_state" where
  "generateZipFile photosBasePath pfs env directoryPaths outputPath s =
     (let tempPath = outputPath @ ''.tmp''
      in if \<not> openOk env then (Inl OpenError, s)
         else
           (case processDirectoriesAsync photosBasePath pfs directoryPaths (assemblyOrder env)
                   (sinkOk env) of
              Inl e \<Rightarrow>
                (Inl StreamError,
                 fs_write tempPath
                   \<lparr>fsize = writtenSize env, fmtime = writeTime env,
                    fentries = take (partialEntries env)
                                 (fst (processDirectories photosBasePath pfs directoryPaths
                                         (assemblyOrder env))),
                    ffinalized = False\<rparr> s)
            | Inr (archive, logs) \<Rightarrow>
                (let s1 = fs_write tempPath
                            \<lparr>fsize = writtenSize env, fmtime = writeTime env,
                             fentries = archive, ffinalized = True\<rparr> s
                 in if \<not> renameOk env then (Inl RenameError, s1)
                    else
                      (let s2 = fs_rename tempPath outputPath s1;
                           cacheKey = generateCacheKey directoryPaths
                       in case cm_set cacheKey outputPath s2 of
                            (Inl e, s3) \<Rightarrow> (Inl CacheSetError, s3)
                          | (Inr u, s3) \<Rightarrow> (Inr (), s3)))))"

text \<open>
  \<open>enforceMaxCacheSize\<close>.  The loop over the sorted infos is \<open>evict_loop\<close>; its first
  component lists the paths unlinked, in the order of the calls.  \<open>sort_key\<close> is a stable
  sort, as \<open>Array.prototype.sort\<close> with the comparator \<open>a.mtime - b.mtime\<close> is.
\<close>

fun evict_loop ::
  "cache_file_info list \<Rightarrow> int \<Rightarrow> cache_state \<Rightarrow> string list \<times> cache_state" where
  "evict_loop [] remainingSize s = ([], s)"
| "evict_loop (fileInfo # rest) remainingSize s =
     (case fs_unlink (ci_path fileInfo) s of
        None \<Rightarrow> evict_loop rest remainingSize s
      | Some s1 \<Rightarrow>
          (let remainingSize1 = remainingSize - ci_size fileInfo
           in if bytesToMB remainingSize1 \<le> 100 * maxCacheSizeMB
              then ([ci_path fileInfo], s1)
              else (case evict_loop rest remainingSize1 s1 of
                      (deleted, s2) \<Rightarrow> (ci_path fileInfo # deleted, s2))))"

definition enforceMaxCacheSize :: "cache_state \<Rightarrow> string list \<times> cache_state" where
  "enforceMaxCacheSize s =
     (let fileInfos = getCacheFileInfos s;
          totalSize = (\<Sum>file\<leftarrow>fileInfos. ci_size file);
          totalSizeMB = bytesToMB totalSize
      in if totalSizeMB \<le> 100 * maxCacheSizeMB then ([], s)
         else evict_loop (sort_key ci_mtime fileInfos) totalSize s)"

text \<open>
  The result of a flush: the number of files deleted and the size freed, in hundredths of a
  megabyte (see \<open>bytesToMB\<close>).
\<close>

record cache_flush_result =
  deletedFiles :: nat
  totalSizeMB :: int

text \<open>
  \<open>flushCacheOlderThan\<close>: the loop carries \<open>totalSize\<close>, \<open>deletedCount\<close> and the state; a
  failing \<open>stat\<close> or \<open>unlink\<close> is caught and the loop goes on with the next file.
\<close>

fun flushOlder_loop ::
  "int \<Rightarrow> string list \<Rightarrow> int \<times> nat \<times> cache_state \<Rightarrow> int \<times> nat \<times> cache_state" where
  "flushOlder_loop cutoffTime [] acc = acc"
| "flushOlder_loop cutoffTime (file # rest) (totalSize, deletedCount, s) =
     (let filePath = path_join [cacheDirectory, file]
      in case fs_stat s filePath of
           None \<Rightarrow> flushOlder_loop cutoffTime rest (totalSize, deletedCount, s)
         | Some stats \<Rightarrow>
             (if fmtime stats < cutoffTime then
                (case fs_unlink filePath s of
                   None \<Rightarrow>
                     flushOlder_loop cutoffTime rest
                       (totalSize + fsize stats, deletedCount, s)
                 | Some s1 \<Rightarrow>
                     flushOlder_loop cutoffTime rest
                       (totalSize + fsize stats, deletedCount + 1, s1))
              else flushOlder_loop cutoffTime rest (totalSize, deletedCount, s)))"

definition flushCacheOlderThan ::
  "int \<Rightarrow> int \<Rightarrow> cache_state \<Rightarrow> cache_flush_result \<times> cache_state" where
  "flushCacheOlderThan ageInMs now s =
     (let cutoffTime = now - ageInMs
      in case flushOlder_loop cutoffTime (getZipFiles s) (0, 0, s) of
           (totalSize, deletedCount, s1) \<Rightarrow>
             (\<lparr>deletedFiles = deletedCount, totalSizeMB = bytesToMB totalSize\<rparr>, s1))"

fun flushAll_loop ::
  "string list \<Rightarrow> int \<times> nat \<times> cache_state \<Rightarrow> int \<times> nat \<times> cache_state" where
  "flushAll_loop [] acc = acc"
| "flushAll_loop (file # rest) (totalSize, deletedCount, s) =
     (let filePath = path_join [cacheDirectory, file]
      in case fs_stat s filePath of
           None \<Rightarrow> flushAll_loop rest (totalSize, deletedCount, s)
         | Some stats \<Rightarrow>
             (case fs_unlink filePath s of
                None \<Rightarrow> flushAll_loop rest (totalSize + fsize stats, deletedCount, s)
              | Some s1 \<Rightarrow>
                  flushAll_loop rest (totalSize + fsize stats, deletedCount + 1, s1)))"

definition clearAllRedisCache :: "cache_state \<Rightarrow> cache_state" where
  "clearAllRedisCache s =
     (case counter_del ''cache:stats:hits'' s of
        (Inl e, s1) \<Rightarrow> s1
      | (Inr u, s1) \<Rightarrow> snd (counter_del ''cache:stats:misses'' s1))"

definition flushAllCache :: "cache_state \<Rightarrow> cache_flush_result \<times> cache_state" where
  "flushAllCache s =
     (case flushAll_loop (getZipFiles s) (0, 0, s) of
        (totalSize, deletedCount, s1) \<Rightarrow>
          (\<lparr>deletedFiles = deletedCount, totalSizeMB = bytesToMB totalSize\<rparr>,
           clearAllRedisCache s1))"

text \<open>
  \<open>getCacheStats\<close>.  The record holds the values the statistics are computed from; the
  remaining fields of the source (\<open>usagePercentage\<close>, \<open>oldestFileAge\<close>, \<open>hitRate\<close>) are
  functions of these and of constants.
\<close>

record cache_stats =
  fileCount :: nat
  statsTotalSizeMB :: int
  oldestTime :: int
  hits :: nat
  misses :: nat

fun stats_loop :: "cache_state \<Rightarrow> string list \<Rightarrow> int \<times> int \<Rightarrow> int \<times> int" where
  "stats_loop s [] acc = acc"
| "stats_loop s (file # rest) (totalSize, oldest) =
     (let filePath = path_join [cacheDirectory, file]
      in case fs_stat s filePath of
           None \<Rightarrow> stats_loop s rest (totalSize, oldest)
         | Some stats \<Rightarrow>
             stats_loop s rest
               (totalSize + fsize stats,
                if fmtime stats < oldest then fmtime stats else oldest))"

definition getCacheMetrics :: "cache_state \<Rightarrow> (nat \<times> nat) \<times> cache_state" where
  "getCacheMetrics s =
     (case counter_get ''cache:stats:hits'' s of
        (Inl e, s1) \<Rightarrow> ((0, 0), s1)
      | (Inr h, s1) \<Rightarrow>
          (case counter_get ''cache:stats:misses'' s1 of
             (Inl e, s2) \<Rightarrow> ((0, 0), s2)
           | (Inr m, s2) \<Rightarrow>
               ((case h of None \<Rightarrow> 0 | Some n \<Rightarrow> n, case m of None \<Rightarrow> 0 | Some n \<Rightarrow> n), s2)))"

definition getCacheStats :: "int \<Rightarrow> cache_state \<Rightarrow> cache_stats \<times> cache_state" where
  "getCacheStats now s =
     (let zipFiles = getZipFiles s
      in case stats_loop s zipFiles (0, now) of
           (totalSize, oldest) \<Rightarrow>
             (case getCacheMetrics s of
                ((h, m), s1) \<Rightarrow>
                  (\<lparr>fileCount = length zipFiles, statsTotalSizeMB = bytesToMB totalSize,
                    oldestTime = oldest, hits = h, misses = m\<rparr>, s1)))"

text \<open>
  The scheduled tasks.  \<open>preGenerateZips\<close> gets the recent orders (their directory lists,
  each with the environment of its generation); a failed generation is caught and the loop
  goes on.  \<open>performDailyMaintenance\<close> flushes by age, then enforces the size limit.
\<close>

fun preGenerateZips ::
  "string \<Rightarrow> photo_fs \<Rightarrow> (string list \<times> gen_env) list \<Rightarrow> cache_state \<Rightarrow> cache_state" where
  "preGenerateZips photosBasePath pfs [] s = s"
| "preGenerateZips photosBasePath pfs ((directoryPaths, env) # orders) s =
     (let zipPath = getZipPath directoryPaths
      in if fileExists s zipPath then preGenerateZips photosBasePath pfs orders s
         else (case generateZipFile photosBasePath pfs env directoryPaths zipPath s of
                 (Inl e, s1) \<Rightarrow> preGenerateZips photosBasePath pfs orders s1
               | (Inr u, s1) \<Rightarrow>
                   preGenerateZips photosBasePath pfs orders (snd (enforceMaxCacheSize s1))))"

definition performDailyMaintenance :: "int \<Rightarrow> cache_state \<Rightarrow> cache_state" where
  "performDailyMaintenance now s =
     (let maxAgeMs = maxCacheAgeHours * 60 * 60 * 1000
      in case flushCacheOlderThan maxAgeMs now s of
           (ageResult, s1) \<Rightarrow> snd (enforceMaxCacheSize s1))"


section \<open>TransferController: the download handler\<close>

text \<open>
  The handler after the token has been validated: a cached archive is streamed from its
  file; otherwise an assembly of the order's directories is started and its stream is
  returned.  \<open>RealTimeStream\<close> stands for a started call of \<open>processDirectoriesAsync\<close>.
\<close>

datatype download_result = ServeCachedFile string | RealTimeStream "string list"

definition download :: "string list \<Rightarrow> cache_state \<Rightarrow> download_result \<times> cache_state" where
  "download directoryPaths s =
     (case getCachedZip directoryPaths s of
        (Some cachedZipPath, s1) \<Rightarrow>
          (if cachedZipPath = [] then (RealTimeStream directoryPaths, s1)
           else (ServeCachedFile cachedZipPath, s1))
      | (None, s1) \<Rightarrow> (RealTimeStream directoryPaths, s1))"

text \<open>Requests handled one after the other, each on the state the previous one left.\<close>

fun downloads :: "string list list \<Rightarrow> cache_state \<Rightarrow> download_result list \<times> cache_state" where
  "downloads [] s = ([], s)"
| "downloads (directoryPaths # requests) s =
     (case download directoryPaths s of
        (r, s1) \<Rightarrow> (case downloads requests s1 of (rs, s2) \<Rightarrow> (r # rs, s2)))"

definition assembliesStarted :: "download_result list \<Rightarrow> nat" where
  "assembliesStarted results =
     length (filter (\<lambda>r. case r of RealTimeStream dirs \<Rightarrow> True | ServeCachedFile p \<Rightarrow> False) results)"


section \<open>Notions used in the statements\<close>

text \<open>
  A well-formed file system names every file once, by a normalized path.
\<close>

definition wf_fs :: "cache_state \<Rightarrow> bool" where
  "wf_fs s \<longleftrightarrow>
     distinct (map fst (files s)) \<and> (\<forall>p \<in> set (map fst (files s)). path_normalize p = p)"

text \<open>
  The cached artifacts: the files directly inside the cache directory whose name ends in
  \<open>.zip\<close>.
\<close>

definition is_cache_zip :: "string \<Rightarrow> bool" where
  "is_cache_zip filePath =
     (case child_name cacheDirectory filePath of
        None \<Rightarrow> False
      | Some file \<Rightarrow> endsWith file ''.zip'')"

definition cache_zips :: "cache_state \<Rightarrow> (string \<times> file_node) list" where
  "cache_zips s = filter (\<lambda>e. is_cache_zip (fst e)) (files s)"

definition zip_name :: "string \<times> file_node \<Rightarrow> string" where
  "zip_name e = drop (length cacheDirectory + 1) (fst e)"

definition zip_info :: "string \<times> file_node \<Rightarrow> cache_file_info" where
  "zip_info e =
     \<lparr>ci_name = zip_name e, ci_path = fst e, ci_size = fsize (snd e), ci_mtime = fmtime (snd e)\<rparr>"

definition total_size :: "(string \<times> file_node) list \<Rightarrow> int" where
  "total_size es = (\<Sum>e\<leftarrow>es. fsize (snd e))"

text \<open>
  The entries of the cache manager are the ones the service writes: a cache key with the
  archive path of that key.
\<close>

definition mem_wf :: "cache_state \<Rightarrow> bool" where
  "mem_wf s \<longleftrightarrow>
     (\<forall>e \<in> set (mem s). \<exists>directoryPaths.
        fst e = generateCacheKey directoryPaths \<and> snd e = getZipPath directoryPaths)"


text \<open>States used for the concrete instances.\<close>

definition empty_cache_state :: cache_state where
  "empty_cache_state = \<lparr>files = [], mem = [], counters = [], faults = []\<rparr>"

definition example_cache_state :: cache_state where
  "example_cache_state =
     \<lparr>files =
        [(''/tmp/photo-cache/aaaa.zip'',
            \<lparr>fsize = 3000000000, fmtime = 1000, fentries = [], ffinalized = True\<rparr>),
         (''/tmp/photo-cache/notes.txt'',
            \<lparr>fsize = 10, fmtime = 500, fentries = [], ffinalized = False\<rparr>),
         (''/tmp/photo-cache/bbbb.zip'',
            \<lparr>fsize = 3000000000, fmtime = 2000, fentries = [], ffinalized = True\<rparr>),
         (''/tmp/photo-cache/cccc.zip.tmp'',
            \<lparr>fsize = 123, fmtime = 300, fentries = [], ffinalized = False\<rparr>)],
      mem = [], counters = [], faults = []\<rparr>"

definition oversize_cache_state :: cache_state where
  "oversize_cache_state =
     \<lparr>files =
        [(''/tmp/photo-cache/big.zip'',
            \<lparr>fsize = 5242880001, fmtime = 1000, fentries = [], ffinalized = True\<rparr>)],
      mem = [], counters = [], faults = []\<rparr>"


section \<open>Notions used in the proofs\<close>

text \<open>
  \<open>remove_paths ps s\<close> is \<open>s\<close> without the files at the paths \<open>ps\<close>.  \<open>listed s zs\<close> says that
  \<open>zs\<close> are files of \<open>s\<close>, under distinct paths that \<open>path.join\<close> rebuilds from the cache
  directory and the file's name.  \<open>evict_prefix zs r\<close> counts the deletions of the eviction
  loop on the files \<open>zs\<close> with \<open>r\<close> bytes in the cache.
\<close>

definition remove_paths :: "string list \<Rightarrow> cache_state \<Rightarrow> cache_state" where
  "remove_paths ps s = s\<lparr>files := filter (\<lambda>e. fst e \<notin> set ps) (files s)\<rparr>"

definition listed :: "cache_state \<Rightarrow> (string \<times> file_node) list \<Rightarrow> bool" where
  "listed s zs \<longleftrightarrow>
     distinct (map fst zs) \<and>
     (\<forall>e \<in> set zs. path_join [cacheDirectory, zip_name e] = fst e
                   \<and> map_of (files s) (fst e) = Some (snd e))"

fun evict_prefix :: "(string \<times> file_node) list \<Rightarrow> int \<Rightarrow> nat" where
  "evict_prefix [] r = 0"
| "evict_prefix (e # zs) r =
     (if bytesToMB (r - fsize (snd e)) \<le> 100 * maxCacheSizeMB then 1
      else 1 + evict_prefix zs (r - fsize (snd e)))"

text \<open>
  A state whose cache manager still holds the entry of a directory list but whose archive
  file is gone.
\<close>

definition stale_cache_state :: cache_state where
  "stale_cache_state =
     \<lparr>files = [],
      mem = [(generateCacheKey [''events/wedding''], getZipPath [''events/wedding''])],
      counters = [], faults = []\<rparr>"

text \<open>A state in which the archive of a directory list has been stored.\<close>

definition stored_cache_state :: cache_state where
  "stored_cache_state =
     \<lparr>files = [(getZipPath [''events/wedding''],
                \<lparr>fsize = 2048, fmtime = 5000,
                 fentries = [(''/mnt/psd/events/wedding/a.jpg'', ''wedding/a.jpg''),
                             (''/mnt/psd/events/wedding/b.PNG'', ''wedding/b.PNG'')],
                 ffinalized = True\<rparr>)],
      mem = [], counters = [], faults = []\<rparr>"



section \<open>Properties of the path functions\<close>

lemma segments_no_slash: "CHR ''/'' \<notin> set a \<Longrightarrow> segments a = [a]"
  by (induction a) auto

lemma segments_append_slash:
  "CHR ''/'' \<notin> set a \<Longrightarrow> segments (a @ CHR ''/'' # r) = a # segments r"
  by (induction a) auto

lemma path_basename_no_slash: "CHR ''/'' \<notin> set (path_basename p)"
  by (auto simp: path_basename_def dest: set_takeWhileD)

lemma path_extname_special:
  "path_extname [] = []" "path_extname ''.'' = []" "path_extname ''..'' = []"
  by (simp_all add: path_extname_def)

lemma isValidImageFile_regular:
  assumes "isValidImageFile f"
  shows "f \<noteq> [] \<and> f \<noteq> ''.'' \<and> f \<noteq> ''..''"
proof -
  have "[] \<notin> set supportedImageExtensions"
    by (simp add: supportedImageExtensions_def)
  with assms show ?thesis
    by (auto simp: isValidImageFile_def toLowerCase_def path_extname_special)
qed

lemma normalize_segment_regular:
  "seg \<noteq> [] \<Longrightarrow> seg \<noteq> ''.'' \<Longrightarrow> seg \<noteq> ''..'' \<Longrightarrow> normalize_segment a res seg = res @ [seg]"
  by (simp add: normalize_segment_def)

lemma normalize_segment_dotdot_empty: "normalize_segment True [] ''..'' = [''..'']"
  by (simp add: normalize_segment_def)

lemma normalize_segment_skip:
  "normalize_segment a res ''.'' = res" "normalize_segment a res [] = res"
  by (simp_all add: normalize_segment_def)

lemma normalizeString_one:
  assumes "segments path = [f]" "f \<noteq> []" "f \<noteq> ''.''" "f \<noteq> ''..''"
  shows "normalizeString path a = f"
  using assms by (simp add: normalizeString_def normalize_segment_regular)

lemma normalizeString_two:
  assumes "segments path = [b, f]" "f \<noteq> []" "f \<noteq> ''.''" "f \<noteq> ''..''" "b \<noteq> []"
  shows "normalizeString path True = (if b = ''.'' then f else b @ ''/'' @ f)"
proof -
  have 1: "normalize_segment True [] b = (if b = ''.'' then [] else [b])"
  proof (cases "b = ''..''")
    case True
    then show ?thesis by (simp only: normalize_segment_dotdot_empty) simp
  next
    case False
    show ?thesis
    proof (cases "b = ''.''")
      case True
      then show ?thesis by (simp only: normalize_segment_skip) simp
    next
      case F2: False
      with False assms(5) show ?thesis by (simp add: normalize_segment_regular)
    qed
  qed
  have 2: "normalize_segment True res f = res @ [f]" for res
    using assms by (simp add: normalize_segment_regular)
  show ?thesis
    unfolding normalizeString_def assms(1) by (simp add: 1 2)
qed

lemma path_normalize_relative:
  assumes "path \<noteq> []" "hd path \<noteq> CHR ''/''" "last path \<noteq> CHR ''/''"
    "normalizeString path True \<noteq> []"
  shows "path_normalize path = normalizeString path True"
  using assms by (simp add: path_normalize_def Let_def)

lemma hd_not_slash: "CHR ''/'' \<notin> set a \<Longrightarrow> a \<noteq> [] \<Longrightarrow> hd a \<noteq> CHR ''/''"
  by (cases a) auto

lemma last_not_slash: "CHR ''/'' \<notin> set a \<Longrightarrow> a \<noteq> [] \<Longrightarrow> last a \<noteq> CHR ''/''"
  by (cases a rule: rev_cases) auto

lemma path_join_flat:
  assumes b: "CHR ''/'' \<notin> set b" and f: "CHR ''/'' \<notin> set f"
    and r: "f \<noteq> []" "f \<noteq> ''.''" "f \<noteq> ''..''"
  shows "path_join [b, f] = (if b = [] \<or> b = ''.'' then f else b @ ''/'' @ f)"
proof (cases "b = []")
  case True
  from f r(1) have hl: "hd f \<noteq> CHR ''/''" "last f \<noteq> CHR ''/''"
    by (simp_all add: hd_not_slash last_not_slash)
  have n: "normalizeString f True = f"
    using f r by (intro normalizeString_one) (simp_all add: segments_no_slash)
  have "path_join [b, f] = path_normalize f"
    using True r by (simp add: path_join_def)
  also have "\<dots> = f"
    using path_normalize_relative [of f] r hl n by simp
  finally show ?thesis using True by simp
next
  case False
  let ?p = "b @ CHR ''/'' # f"
  from f r(1) have lf: "last ?p \<noteq> CHR ''/''" by (simp add: last_not_slash)
  from b False have hb: "hd ?p \<noteq> CHR ''/''" by (simp add: hd_not_slash)
  have seg: "segments ?p = [b, f]"
    using b f by (simp add: segments_append_slash segments_no_slash)
  have n: "normalizeString ?p True = (if b = ''.'' then f else b @ ''/'' @ f)"
    using seg r False by (rule normalizeString_two)
  have ne: "normalizeString ?p True \<noteq> []"
    using n r by (simp split: if_splits)
  have "path_join [b, f] = path_normalize ?p"
    using False r by (simp add: path_join_def)
  also have "\<dots> = normalizeString ?p True"
    using hb lf ne by (intro path_normalize_relative) simp_all
  finally show ?thesis using n False by simp
qed

section \<open>Properties of the archive assembly\<close>

lemma addFilesToArchive_eq:
  "addFilesToArchive fs fullPath dir archive =
     (length fs, archive @ map (\<lambda>file. (path_join [fullPath, file], zipEntryPath dir file)) fs)"
  by (induction fs arbitrary: archive) (simp_all add: addSingleFileToArchive_def)

lemma processDirectory_eq:
  "processDirectory base pfs d (archive, logs) =
     (archive @ directoryEntries base pfs d, logs @ [directoryLog base pfs d])"
  by (cases "pfs (getFullPhotoPath base d)")
    (simp_all add: processDirectory_def directoryEntries_def directoryLog_def
      checkDirectoryExists_def getImageFiles_def photo_readdir_def addFilesToArchive_eq)

lemma foldl_processDirectory:
  "foldl (\<lambda>st dirPath. processDirectory base pfs dirPath st) (archive, logs) dirs =
     (archive @ concat (map (directoryEntries base pfs) dirs),
      logs @ map (directoryLog base pfs) dirs)"
  by (induction dirs arbitrary: archive logs) (simp_all add: processDirectory_eq)

lemma mset_concat_map_sum: "mset (concat (map f zs)) = (\<Sum>x\<in>#mset zs. mset (f x))"
  by (induction zs) simp_all

lemma mset_concat_map_cong:
  "mset xs = mset ys \<Longrightarrow> mset (concat (map f xs)) = mset (concat (map f ys))"
  by (simp add: mset_concat_map_sum)

lemma completed_permutation:
  "mset (if mset completionOrder = mset directoryPaths then completionOrder else directoryPaths)
     = mset directoryPaths"
  by simp

lemma processDirectories_eq:
  "processDirectories base pfs dirs completionOrder =
     (concat (map (directoryEntries base pfs)
        (if mset completionOrder = mset dirs then completionOrder else dirs)),
      map (directoryLog base pfs) (if mset completionOrder = mset dirs then completionOrder else dirs))"
  by (simp add: processDirectories_def foldl_processDirectory)

lemma directoryEntries_missing:
  "\<not> checkDirectoryExists pfs (getFullPhotoPath base d) \<Longrightarrow> directoryEntries base pfs d = []"
  by (simp add: checkDirectoryExists_def directoryEntries_def split: fs_node.splits)

lemma directoryLog_missing:
  "\<not> checkDirectoryExists pfs (getFullPhotoPath base d) \<Longrightarrow>
     directoryLog base pfs d = DirectoryNotFound (getFullPhotoPath base d)"
  by (simp add: checkDirectoryExists_def directoryLog_def split: fs_node.splits)

lemma concat_map_filter_nonempty:
  "(\<And>x. x \<in> set xs \<Longrightarrow> \<not> P x \<Longrightarrow> f x = []) \<Longrightarrow> concat (map f (filter P xs)) = concat (map f xs)"
  by (induction xs) auto

lemma existing_directoryEntries:
  "concat (map (directoryEntries base pfs)
      (filter (\<lambda>d. checkDirectoryExists pfs (getFullPhotoPath base d)) dirs))
   = concat (map (directoryEntries base pfs) dirs)"
  by (rule concat_map_filter_nonempty) (simp add: directoryEntries_missing)

text \<open>
  Claim C7.  A directory that does not exist or cannot be read does not make the assembly
  fail: with a sink that accepts the archive, \<open>processDirectoriesAsync\<close> returns normally for
  every list of directories and every order in which they complete.  The archive holds
  exactly the eligible files of the readable directories, each as often as its directory was
  requested, as if the other directories had not been requested; the files of a directory
  stay together, the directories in the order of their completion.  One log line is written
  per directory, and for each missing one it is the line \<open>Directory not found\<close>.
\<close>

theorem processDirectories_skips_missing:
  "\<exists>archive logs.
     processDirectoriesAsync base pfs directoryPaths completionOrder True = Inr (archive, logs)
     \<and> mset archive
         = mset (concat (map (directoryEntries base pfs)
             (filter (\<lambda>d. checkDirectoryExists pfs (getFullPhotoPath base d)) directoryPaths)))
     \<and> (mset completionOrder = mset directoryPaths \<longrightarrow>
          archive = concat (map (directoryEntries base pfs)
             (filter (\<lambda>d. checkDirectoryExists pfs (getFullPhotoPath base d)) completionOrder)))
     \<and> mset logs = mset (map (directoryLog base pfs) directoryPaths)
     \<and> length logs = length directoryPaths
     \<and> (\<forall>d\<in>set directoryPaths.
          \<not> checkDirectoryExists pfs (getFullPhotoPath base d) \<longrightarrow>
          DirectoryNotFound (getFullPhotoPath base d) \<in> set logs)"
proof -
  define completed where
    "completed = (if mset completionOrder = mset directoryPaths then completionOrder
                  else directoryPaths)"
  define archive where "archive = concat (map (directoryEntries base pfs) completed)"
  define logs where "logs = map (directoryLog base pfs) completed"
  have perm: "mset completed = mset directoryPaths"
    unfolding completed_def by (rule completed_permutation)
  have run: "processDirectoriesAsync base pfs directoryPaths completionOrder True
      = Inr (archive, logs)"
    by (simp add: processDirectoriesAsync_def processDirectories_eq archive_def logs_def
        completed_def)
  have "mset archive = mset (concat (map (directoryEntries base pfs) directoryPaths))"
    unfolding archive_def using perm by (rule mset_concat_map_cong)
  then have a: "mset archive
      = mset (concat (map (directoryEntries base pfs)
          (filter (\<lambda>d. checkDirectoryExists pfs (getFullPhotoPath base d)) directoryPaths)))"
    by (simp only: existing_directoryEntries)
  have b: "archive = concat (map (directoryEntries base pfs)
             (filter (\<lambda>d. checkDirectoryExists pfs (getFullPhotoPath base d)) completionOrder))"
    if "mset completionOrder = mset directoryPaths"
    using that by (simp add: archive_def completed_def existing_directoryEntries)
  have l: "mset logs = mset (map (directoryLog base pfs) directoryPaths)"
    unfolding logs_def using perm by (simp only: mset_map)
  have n: "length logs = length directoryPaths"
    using perm [THEN mset_eq_length] by (simp add: logs_def)
  have s: "set completed = set directoryPaths"
    using perm by (rule mset_eq_setD)
  have m: "DirectoryNotFound (getFullPhotoPath base d) \<in> set logs"
    if "d \<in> set directoryPaths" "\<not> checkDirectoryExists pfs (getFullPhotoPath base d)" for d
  proof -
    from that(1) s have "d \<in> set completed" by simp
    then have "directoryLog base pfs d \<in> set logs" by (simp add: logs_def)
    with directoryLog_missing [OF that(2)] show ?thesis by simp
  qed
  from run a b l n m show ?thesis by blast
qed

text \<open>
  An instance of claim C7: the directory \<open>events/gala\<close> is missing and completes first,
  \<open>events/wedding\<close> holds two images and a text file.
\<close>

theorem processDirectories_skips_missing_witness:
  "''events/gala'' \<in> set [''events/wedding'', ''events/gala'']
   \<and> \<not> checkDirectoryExists example_photo_fs (getFullPhotoPath ''/mnt/psd'' ''events/gala'')
   \<and> mset [''events/gala'', ''events/wedding''] = mset [''events/wedding'', ''events/gala'']
   \<and> (\<exists>logs. processDirectoriesAsync ''/mnt/psd'' example_photo_fs
                [''events/wedding'', ''events/gala''] [''events/gala'', ''events/wedding''] True
         = Inr ([(''/mnt/psd/events/wedding/a.jpg'', ''wedding/a.jpg''),
                 (''/mnt/psd/events/wedding/b.PNG'', ''wedding/b.PNG'')], logs)
       \<and> DirectoryNotFound ''/mnt/psd/events/gala'' \<in> set logs)"
proof -
  have p1: "getFullPhotoPath ''/mnt/psd'' ''events/gala'' = ''/mnt/psd/events/gala''" by code_simp
  have p2: "getFullPhotoPath ''/mnt/psd'' ''events/wedding'' = ''/mnt/psd/events/wedding''" by code_simp
  have e1: "\<not> checkDirectoryExists example_photo_fs ''/mnt/psd/events/gala''"
    by (simp add: checkDirectoryExists_def example_photo_fs_def)
  have e2: "checkDirectoryExists example_photo_fs ''/mnt/psd/events/wedding''"
    by (simp add: checkDirectoryExists_def example_photo_fs_def)
  have d: "directoryEntries ''/mnt/psd'' example_photo_fs ''events/wedding'' =
      [(''/mnt/psd/events/wedding/a.jpg'', ''wedding/a.jpg''),
       (''/mnt/psd/events/wedding/b.PNG'', ''wedding/b.PNG'')]"
    by code_simp
  have h: "mset [''events/gala'', ''events/wedding''] = mset [''events/wedding'', ''events/gala'']"
    by (simp only: mset.simps add_mset_commute)
  have i: "''events/gala'' \<in> set [''events/wedding'', ''events/gala'']" by simp
  from processDirectories_skips_missing [of "''/mnt/psd''" example_photo_fs
      "[''events/wedding'', ''events/gala'']" "[''events/gala'', ''events/wedding'']"]
  obtain archive logs where
    r: "processDirectoriesAsync ''/mnt/psd'' example_photo_fs
          [''events/wedding'', ''events/gala''] [''events/gala'', ''events/wedding''] True
        = Inr (archive, logs)"
    and a: "mset [''events/gala'', ''events/wedding''] = mset [''events/wedding'', ''events/gala'']
        \<longrightarrow> archive = concat (map (directoryEntries ''/mnt/psd'' example_photo_fs)
             (filter (\<lambda>d. checkDirectoryExists example_photo_fs (getFullPhotoPath ''/mnt/psd'' d))
                [''events/gala'', ''events/wedding'']))"
    and m: "\<forall>d\<in>set [''events/wedding'', ''events/gala''].
          \<not> checkDirectoryExists example_photo_fs (getFullPhotoPath ''/mnt/psd'' d) \<longrightarrow>
          DirectoryNotFound (getFullPhotoPath ''/mnt/psd'' d) \<in> set logs"
    by blast
  from a h have "archive = concat (map (directoryEntries ''/mnt/psd'' example_photo_fs)
             (filter (\<lambda>d. checkDirectoryExists example_photo_fs (getFullPhotoPath ''/mnt/psd'' d))
                [''events/gala'', ''events/wedding'']))" by (rule mp)
  then have a': "archive = [(''/mnt/psd/events/wedding/a.jpg'', ''wedding/a.jpg''),
                 (''/mnt/psd/events/wedding/b.PNG'', ''wedding/b.PNG'')]"
    by (simp add: p1 p2 e1 e2 d)
  from m i e1 have "DirectoryNotFound (getFullPhotoPath ''/mnt/psd'' ''events/gala'') \<in> set logs"
    unfolding p1 [symmetric] by blast
  then have m': "DirectoryNotFound ''/mnt/psd/events/gala'' \<in> set logs" by (simp only: p1)
  have e1': "\<not> checkDirectoryExists example_photo_fs (getFullPhotoPath ''/mnt/psd'' ''events/gala'')"
    unfolding p1 by (rule e1)
  from r a' m' i e1' h show ?thesis by blast
qed

lemma zipEntryPath_flat:
  assumes "CHR ''/'' \<notin> set file" and "isValidImageFile file"
    and "path_basename dirPath \<noteq> [] \<and> path_basename dirPath \<noteq> ''.''"
  shows "zipEntryPath dirPath file = path_basename dirPath @ ''/'' @ file"
proof -
  from assms(2) have r: "file \<noteq> []" "file \<noteq> ''.''" "file \<noteq> ''..''"
    using isValidImageFile_regular by blast+
  from assms(3) have n: "\<not> (path_basename dirPath = [] \<or> path_basename dirPath = ''.'')"
    by blast
  have "zipEntryPath dirPath file =
          (if path_basename dirPath = [] \<or> path_basename dirPath = ''.''
           then file else path_basename dirPath @ ''/'' @ file)"
    unfolding zipEntryPath_def Let_def
    by (rule path_join_flat [OF path_basename_no_slash assms(1) r])
  also have "\<dots> = path_basename dirPath @ ''/'' @ file"
    using n by (rule if_not_P)
  finally show ?thesis .
qed

lemma directoryEntries_member:
  assumes "wf_photo_fs pfs" and "e \<in> set (directoryEntries base pfs d)"
  shows "\<exists>file. isValidImageFile file \<and> CHR ''/'' \<notin> set file
           \<and> e = (path_join [getFullPhotoPath base d, file], zipEntryPath d file)"
proof (cases "pfs (getFullPhotoPath base d)")
  case (Directory names)
  with assms(2) obtain fname where f: "fname \<in> set names" "isValidImageFile fname"
    "e = (path_join [getFullPhotoPath base d, fname], zipEntryPath d fname)"
    by (auto simp: directoryEntries_def)
  from assms(1) Directory f(1) have "CHR ''/'' \<notin> set fname"
    unfolding wf_photo_fs_def by blast
  with f show ?thesis by blast
qed (use assms(2) in \<open>simp_all add: directoryEntries_def\<close>)

lemma processDirectory_directory_eq:
  "processDirectory_directory base pfs d (requests, logs) =
     (if checkDirectoryExists pfs (getFullPhotoPath base d)
      then (requests @ [(getFullPhotoPath base d, path_basename d)],
            logs @ [ProcessingDirectory d (path_basename d)])
      else (requests, logs @ [DirectoryNotFound (getFullPhotoPath base d)]))"
  by (simp add: processDirectory_directory_def Let_def)

lemma foldl_processDirectory_directory:
  "fst (foldl (\<lambda>st dirPath. processDirectory_directory base pfs dirPath st) (requests, logs) dirs)
     = requests @ map (\<lambda>d. (getFullPhotoPath base d, path_basename d))
         (filter (\<lambda>d. checkDirectoryExists pfs (getFullPhotoPath base d)) dirs)"
  by (induction dirs arbitrary: requests logs) (simp_all add: processDirectory_directory_eq)

text \<open>
  Claim C8, as amended.  Both services build the archive path of a file from the basename
  of its directory identifier; the segments above the immediate parent directory are
  dropped.  The file-by-file service queues every file of the archive under
  \<open>path.join(basename, file)\<close>, which is the basename, a slash and the file name whenever the
  basename is neither empty nor \<open>.\<close>; the directory-level service hands every existing
  directory to \<open>archiver.directory\<close> with the basename as its destination prefix.  In both the
  path depends on the directory identifier through its basename only, so two directories
  with the same basename under different parents share one archive namespace.
\<close>

theorem archive_paths_use_basename_only:
  assumes "wf_photo_fs pfs"
  shows "(\<forall>e \<in> set (fst (processDirectories base pfs directoryPaths completionOrder)).
           \<exists>d \<in> set directoryPaths. \<exists>file. isValidImageFile file
             \<and> e = (path_join [getFullPhotoPath base d, file], zipEntryPath d file)
             \<and> (path_basename d \<noteq> [] \<and> path_basename d \<noteq> ''.'' \<longrightarrow>
                  snd e = path_basename d @ ''/'' @ file))
       \<and> (\<forall>d otherDirPath file. path_basename d = path_basename otherDirPath \<longrightarrow>
             zipEntryPath d file = zipEntryPath otherDirPath file)
       \<and> (\<forall>r \<in> set (fst (processDirectories_directory base pfs directoryPaths completionOrder)).
           \<exists>d \<in> set directoryPaths. r = (getFullPhotoPath base d, path_basename d))"
proof -
  define completed where
    "completed = (if mset completionOrder = mset directoryPaths then completionOrder
                  else directoryPaths)"
  have "mset completed = mset directoryPaths"
    unfolding completed_def by (rule completed_permutation)
  then have s: "set completed = set directoryPaths" by (rule mset_eq_setD)
  have 1: "\<exists>d \<in> set directoryPaths. \<exists>file. isValidImageFile file
             \<and> e = (path_join [getFullPhotoPath base d, file], zipEntryPath d file)
             \<and> (path_basename d \<noteq> [] \<and> path_basename d \<noteq> ''.'' \<longrightarrow>
                  snd e = path_basename d @ ''/'' @ file)"
    if "e \<in> set (fst (processDirectories base pfs directoryPaths completionOrder))" for e
  proof -
    from that have "e \<in> set (concat (map (directoryEntries base pfs) completed))"
      by (simp only: processDirectories_eq fst_conv completed_def)
    then obtain d where d: "d \<in> set completed" "e \<in> set (directoryEntries base pfs d)"
      by auto
    from directoryEntries_member [OF assms d(2)] obtain fname where
      f: "isValidImageFile fname" "CHR ''/'' \<notin> set fname"
        "e = (path_join [getFullPhotoPath base d, fname], zipEntryPath d fname)"
      by blast
    have "snd e = path_basename d @ ''/'' @ fname"
      if "path_basename d \<noteq> [] \<and> path_basename d \<noteq> ''.''"
      using zipEntryPath_flat [OF f(2) f(1) that] f(3) by simp
    with d(1) s f(1,3) show ?thesis by blast
  qed
  have 2: "zipEntryPath d fname = zipEntryPath otherDirPath fname"
    if "path_basename d = path_basename otherDirPath" for d otherDirPath fname
    using that by (simp add: zipEntryPath_def)
  have 3: "\<exists>d \<in> set directoryPaths. r = (getFullPhotoPath base d, path_basename d)"
    if "r \<in> set (fst (processDirectories_directory base pfs directoryPaths completionOrder))" for r
  proof -
    from that have "r \<in> set (map (\<lambda>d. (getFullPhotoPath base d, path_basename d))
         (filter (\<lambda>d. checkDirectoryExists pfs (getFullPhotoPath base d)) completed))"
      by (simp only: processDirectories_directory_def Let_def foldl_processDirectory_directory
          append_Nil completed_def)
    then obtain d where "d \<in> set completed" "r = (getFullPhotoPath base d, path_basename d)"
      by auto
    with s show ?thesis by blast
  qed
  from 1 2 3 show ?thesis by blast
qed

text \<open>
  An instance of claim C8: the directory \<open>events/wedding\<close> of the example tree.  Its image
  \<open>a.jpg\<close> is queued as \<open>wedding/a.jpg\<close> by the file-by-file service, and the directory-level
  service passes the prefix \<open>wedding\<close>.
\<close>

theorem archive_paths_use_basename_only_witness:
  "wf_photo_fs example_photo_fs
   \<and> (''/mnt/psd/events/wedding/a.jpg'', ''wedding/a.jpg'')
       \<in> set (fst (processDirectories ''/mnt/psd'' example_photo_fs [''events/wedding'']
                  [''events/wedding'']))
   \<and> path_basename ''events/wedding'' = ''wedding''
   \<and> (\<exists>file. isValidImageFile file \<and> ''wedding/a.jpg'' = ''wedding'' @ ''/'' @ file)
   \<and> fst (processDirectories_directory ''/mnt/psd'' example_photo_fs [''events/wedding'']
            [''events/wedding''])
       = [(''/mnt/psd/events/wedding'', ''wedding'')]"
proof -
  have h: "wf_photo_fs example_photo_fs"
    unfolding wf_photo_fs_def example_photo_fs_def by (auto split: if_splits)
  have p2: "getFullPhotoPath ''/mnt/psd'' ''events/wedding'' = ''/mnt/psd/events/wedding''"
    by code_simp
  have e2: "checkDirectoryExists example_photo_fs ''/mnt/psd/events/wedding''"
    by (simp add: checkDirectoryExists_def example_photo_fs_def)
  have d: "directoryEntries ''/mnt/psd'' example_photo_fs ''events/wedding'' =
      [(''/mnt/psd/events/wedding/a.jpg'', ''wedding/a.jpg''),
       (''/mnt/psd/events/wedding/b.PNG'', ''wedding/b.PNG'')]"
    by code_simp
  have b: "path_basename ''events/wedding'' = ''wedding''" by (simp add: path_basename_def)
  have nb: "path_basename ''events/wedding'' \<noteq> [] \<and> path_basename ''events/wedding'' \<noteq> ''.''"
    unfolding b by simp
  have m: "(''/mnt/psd/events/wedding/a.jpg'', ''wedding/a.jpg'')
       \<in> set (fst (processDirectories ''/mnt/psd'' example_photo_fs [''events/wedding'']
                  [''events/wedding'']))"
    by (simp add: processDirectories_eq d)
  have q: "fst (processDirectories_directory ''/mnt/psd'' example_photo_fs [''events/wedding'']
            [''events/wedding''])
       = [(''/mnt/psd/events/wedding'', ''wedding'')]"
    by (simp add: processDirectories_directory_def processDirectory_directory_eq p2 e2 b)
  note t = archive_paths_use_basename_only [OF h, of "''/mnt/psd''" "[''events/wedding'']"
      "[''events/wedding'']"]
  have "\<exists>file. isValidImageFile file \<and> ''wedding/a.jpg'' = ''wedding'' @ ''/'' @ file"
  proof -
    define e where "e = (''/mnt/psd/events/wedding/a.jpg'', ''wedding/a.jpg'')"
    from m have "e \<in> set (fst (processDirectories ''/mnt/psd'' example_photo_fs
        [''events/wedding''] [''events/wedding'']))"
      by (simp only: e_def)
    from t [THEN conjunct1, rule_format, OF this] obtain dir fname where
      "dir \<in> set [''events/wedding'']" "isValidImageFile fname"
      "path_basename dir \<noteq> [] \<and> path_basename dir \<noteq> ''.'' \<longrightarrow>
         snd e = path_basename dir @ ''/'' @ fname"
      by blast
    moreover from this(1) have "dir = ''events/wedding''" by simp
    ultimately have "isValidImageFile fname"
      "snd e = path_basename ''events/wedding'' @ ''/'' @ fname"
      using nb by blast+
    then have "isValidImageFile fname" "''wedding/a.jpg'' = ''wedding'' @ ''/'' @ fname"
      unfolding b by (simp_all add: e_def)
    then show ?thesis by blast
  qed
  with h m b q show ?thesis by blast
qed

text \<open>
  Claim C8 as stated fails in the file-by-file service for the directory identifier \<open>.\<close>
  (the photo base directory itself): its basename is \<open>.\<close>, and the file \<open>a.jpg\<close> is queued as
  \<open>a.jpg\<close>, not as \<open>./a.jpg\<close>.
\<close>

theorem zipEntryPath_dot_counterexample:
  "isValidImageFile ''a.jpg'' \<and>
   snd (last (snd (addSingleFileToArchive ''a.jpg'' ''/mnt/psd'' ''.'' []))) = ''a.jpg'' \<and>
   ''a.jpg'' \<noteq> path_basename ''.'' @ ''/'' @ ''a.jpg''"
  by code_simp

text \<open>
  Claim C9.  \<open>sanitizePath\<close> removes a leading \<open>..\<close> only when a separator follows it.  The
  normalized form of \<open>../..\<close> is \<open>../..\<close>; one \<open>../\<close> is removed and \<open>..\<close> is left, so the
  full path is the parent of the photo base directory.  The same holds for the input \<open>..\<close>.
\<close>

theorem getFullPhotoPath_escapes_base:
  "getFullPhotoPath ''/mnt/psd'' ''../..'' = ''/mnt'' \<and> getFullPhotoPath ''/mnt/psd'' ''..'' = ''/mnt''"
  by code_simp


section \<open>Properties of the cache key\<close>

lemma extend_schedule_numeral:
  "extend_schedule (numeral k) ws =
     extend_schedule (pred_numeral k)
       (add32 (add32 (add32 (small_sigma1 (ws ! 1)) (ws ! 6)) (small_sigma0 (ws ! 14))) (ws ! 15)
        # ws)"
  by (simp only: numeral_eq_Suc [of k] extend_schedule.simps)

lemma be_bytes_numeral:
  "be_bytes (numeral k) v = be_bytes (pred_numeral k) (v div 256) @ [v mod 256]"
  by (simp only: numeral_eq_Suc [of k] be_bytes.simps)

lemma hex_nat_numeral:
  "hex_nat (numeral k) v = hex_nat (pred_numeral k) (v div 16) @ [hex_digit (v mod 16)]"
  by (simp only: numeral_eq_Suc [of k] hex_nat.simps)

lemma blocks16_numeral:
  "blocks16 (numeral k) ws = take 16 ws # blocks16 (pred_numeral k) (drop 16 ws)"
  by (simp only: numeral_eq_Suc [of k] blocks16.simps)

lemma replicate_numeral_unfold: "replicate (numeral k) x = x # replicate (pred_numeral k) x"
  by (simp only: numeral_eq_Suc [of k] replicate.simps)

lemmas sha256_eval =
  sha256_hex_def sha256_def sha_pad_def sha_compress_def K256_def H256_init_def add32_def
  rotr32_def sha_ch_def sha_maj_def big_sigma0_def big_sigma1_def small_sigma0_def
  small_sigma1_def hex_digit_def Let_def extend_schedule_numeral be_bytes_numeral
  hex_nat_numeral blocks16_numeral replicate_numeral_unfold

text \<open>The tables are the ones the standard describes.\<close>

lemma K256_is_cube_root_table: "list_all2 (root_bits 3) first_primes K256"
  by (simp add: first_primes_def K256_def root_bits_def int_root_def)

lemma H256_init_is_square_root_table: "list_all2 (root_bits 2) (take 8 first_primes) H256_init"
  by (simp add: first_primes_def H256_init_def root_bits_def int_root_def)

text \<open>The test vector of the standard for the message \<open>abc\<close>.\<close>

lemma sha256_hex_abc:
  "sha256_hex ''abc'' = ''ba7816bf8f01cfea414140de5dae2223b00361a396177a9cb410ff61f20015ad''"
  by (simp add: sha256_eval)

lemma sort_mset_eq:
  fixes xs ys :: "string list"
  assumes "mset xs = mset ys"
  shows "sort xs = sort ys"
  by (rule properties_for_sort) (simp_all add: assms)

text \<open>
  Claim C1, as amended.  The cache key depends on the directory list only through the
  directories it holds with their multiplicities: two lists that are permutations of each
  other get the same key.
\<close>

theorem generateCacheKey_permutation_invariant:
  assumes "mset directoryPaths = mset otherPaths"
  shows "generateCacheKey directoryPaths = generateCacheKey otherPaths"
  using sort_mset_eq [OF assms] by (simp add: generateCacheKey_def)

text \<open>The two orders of the directories \<open>events/wedding\<close> and \<open>events/gala\<close>.\<close>

theorem generateCacheKey_permutation_invariant_witness:
  "mset [''events/wedding'', ''events/gala''] = mset [''events/gala'', ''events/wedding'']
   \<and> generateCacheKey [''events/wedding'', ''events/gala'']
       = generateCacheKey [''events/gala'', ''events/wedding'']"
proof -
  have h: "mset [''events/wedding'', ''events/gala''] = mset [''events/gala'', ''events/wedding'']"
    by (simp only: mset.simps add_mset_commute)
  from generateCacheKey_permutation_invariant [OF h] h show ?thesis
    by (rule_tac conjI)
qed

text \<open>
  Claim C1 as stated fails for duplicated elements: \<open>generateCacheKey\<close> sorts the list but
  does not remove duplicates, so \<open>[a, a]\<close> is hashed as \<open>a|a\<close> and \<open>[a]\<close> as \<open>a\<close>.  The two
  lists hold the same set of identifiers and get different keys.
\<close>

theorem generateCacheKey_duplicates_counterexample:
  "set [''a'', ''a''] = set [''a'']
   \<and> generateCacheKey [''a'', ''a''] = ''1e91e4b7912308d2''
   \<and> generateCacheKey [''a''] = ''ca978112ca1bbdca''
   \<and> generateCacheKey [''a'', ''a''] \<noteq> generateCacheKey [''a'']"
proof -
  have s2: "sort [''a'', ''a''] = [''a'', ''a'']" by simp
  have s1: "sort [''a''] = [''a'']" by simp
  have k2: "generateCacheKey [''a'', ''a''] = ''1e91e4b7912308d2''"
    unfolding generateCacheKey_def s2 by (simp add: sha256_eval)
  have k1: "generateCacheKey [''a''] = ''ca978112ca1bbdca''"
    unfolding generateCacheKey_def s1 by (simp add: sha256_eval)
  have "(''1e91e4b7912308d2'' :: string) \<noteq> ''ca978112ca1bbdca''" by simp
  with k1 k2 show ?thesis by simp
qed


section \<open>Properties of the cache directory\<close>

lemma cacheDirectory_nonempty: "cacheDirectory \<noteq> []"
  by (simp add: cacheDirectory_def)

lemma child_name_SomeD:
  assumes "child_name dir p = Some n"
  shows "p = dir @ ''/'' @ n" and "n \<noteq> []" and "CHR ''/'' \<notin> set n"
proof -
  let ?pre = "dir @ ''/''"
  from assms have c: "length ?pre < length p" "take (length ?pre) p = ?pre"
    "CHR ''/'' \<notin> set (drop (length ?pre) p)" and n: "n = drop (length ?pre) p"
    by (simp_all add: child_name_def Let_def split: if_splits)
  have "p = take (length ?pre) p @ drop (length ?pre) p" by simp
  with c(2) n show "p = dir @ ''/'' @ n" by simp
  from c(1) n show "n \<noteq> []" by simp
  from c(3) n show "CHR ''/'' \<notin> set n" by simp
qed

lemma path_join_child:
  assumes "child_name cacheDirectory p = Some n" and "path_normalize p = p"
  shows "path_join [cacheDirectory, n] = p"
proof -
  from child_name_SomeD [OF assms(1)] have p: "p = cacheDirectory @ ''/'' @ n" and n: "n \<noteq> []"
    by simp_all
  have "path_join [cacheDirectory, n] = path_normalize (cacheDirectory @ ''/'' @ n)"
    using n cacheDirectory_nonempty by (simp add: path_join_def)
  with p assms(2) show ?thesis by simp
qed

lemma zip_name_child:
  assumes "child_name cacheDirectory p = Some n"
  shows "zip_name (p, node) = n"
  using child_name_SomeD(1) [OF assms] by (simp add: zip_name_def)

lemma zip_names_eq:
  "filter (\<lambda>file. endsWith file ''.zip'') (List.map_filter (child_name cacheDirectory) (map fst es))
     = map zip_name (filter (\<lambda>e. is_cache_zip (fst e)) es)"
proof (induction es)
  case Nil
  show ?case by (simp add: map_filter_simps)
next
  case (Cons e es)
  obtain p node where e: "e = (p, node)" by (cases e)
  show ?case
  proof (cases "child_name cacheDirectory p")
    case None
    with Cons e show ?thesis by (simp add: map_filter_simps is_cache_zip_def)
  next
    case (Some n)
    with Cons e zip_name_child [OF Some, of node] show ?thesis
      by (simp add: map_filter_simps is_cache_zip_def)
  qed
qed

lemma getZipFiles_eq: "getZipFiles s = map zip_name (cache_zips s)"
  by (simp add: getZipFiles_def fs_readdir_def cache_zips_def zip_names_eq)

lemma listed_cache_zips:
  assumes "wf_fs s"
  shows "listed s (cache_zips s)"
proof -
  from assms have d: "distinct (map fst (files s))"
    and n: "\<And>p. p \<in> fst ` set (files s) \<Longrightarrow> path_normalize p = p"
    by (auto simp: wf_fs_def)
  have "distinct (map fst (cache_zips s))"
    unfolding cache_zips_def using d by (rule distinct_map_filter)
  moreover have "path_join [cacheDirectory, zip_name e] = fst e \<and> map_of (files s) (fst e) = Some (snd e)"
    if "e \<in> set (cache_zips s)" for e
  proof -
    obtain p node where e: "e = (p, node)" by (cases e)
    from that e have m: "(p, node) \<in> set (files s)" and z: "is_cache_zip p"
      by (simp_all add: cache_zips_def)
    from z obtain n' where c: "child_name cacheDirectory p = Some n'"
      by (auto simp: is_cache_zip_def split: option.splits)
    from m have "path_normalize p = p" by (intro n) force
    with c have "path_join [cacheDirectory, n'] = p" by (rule path_join_child)
    moreover from d m have "map_of (files s) p = Some node" by (rule map_of_is_SomeI)
    ultimately show ?thesis using e zip_name_child [OF c, of node] by simp
  qed
  ultimately show ?thesis by (simp add: listed_def)
qed

lemma remove_paths_Nil: "remove_paths [] s = s"
  by (simp add: remove_paths_def)

lemma remove_paths_remove_paths: "remove_paths ps (remove_paths qs s) = remove_paths (qs @ ps) s"
  by (simp add: remove_paths_def conj_commute)

lemma delete_as_filter: "AList.delete p al = filter (\<lambda>e. fst e \<notin> set [p]) al"
  by (induction al) auto

lemma listed_head:
  assumes "listed s (e # zs)"
  shows "fs_stat s (path_join [cacheDirectory, zip_name e]) = Some (snd e)"
    and "fs_unlink (path_join [cacheDirectory, zip_name e]) s = Some (remove_paths [fst e] s)"
    and "fs_unlink (fst e) s = Some (remove_paths [fst e] s)"
    and "listed (remove_paths [fst e] s) zs"
    and "listed s zs"
proof -
  from assms have j: "path_join [cacheDirectory, zip_name e] = fst e"
    and m: "map_of (files s) (fst e) = Some (snd e)"
    and d: "fst e \<notin> fst ` set zs" "distinct (map fst zs)"
    and r: "\<And>x. x \<in> set zs \<Longrightarrow> path_join [cacheDirectory, zip_name x] = fst x
                \<and> map_of (files s) (fst x) = Some (snd x)"
    by (simp_all add: listed_def)
  show "fs_stat s (path_join [cacheDirectory, zip_name e]) = Some (snd e)"
    using j m by (simp add: fs_stat_def)
  show u: "fs_unlink (fst e) s = Some (remove_paths [fst e] s)"
    using m by (simp add: fs_unlink_def remove_paths_def delete_as_filter)
  then show "fs_unlink (path_join [cacheDirectory, zip_name e]) s = Some (remove_paths [fst e] s)"
    using j by simp
  show "listed s zs" using d r by (simp add: listed_def)
  have "map_of (files (remove_paths [fst e] s)) (fst x) = Some (snd x)" if "x \<in> set zs" for x
  proof -
    from that have i: "fst x \<in> fst ` set zs" by (rule imageI)
    have "fst x \<noteq> fst e"
    proof
      assume "fst x = fst e"
      with i have "fst e \<in> fst ` set zs" by (simp only:)
      with d(1) show False ..
    qed
    moreover have "files (remove_paths [fst e] s) = AList.delete (fst e) (files s)"
      by (simp add: remove_paths_def delete_as_filter)
    ultimately show ?thesis using r [OF that] by (simp add: delete_conv)
  qed
  with d r show "listed (remove_paths [fst e] s) zs" by (simp add: listed_def)
qed

lemma collectFileInfos_listed:
  "listed s zs \<Longrightarrow> collectFileInfos s (map zip_name zs) = map zip_info zs"
proof (induction zs)
  case Nil
  show ?case by simp
next
  case (Cons e zs)
  from listed_head(1,5) [OF Cons.prems] Cons.IH
  have "collectFileInfos s (map zip_name zs) = map zip_info zs"
    and st: "fs_stat s (path_join [cacheDirectory, zip_name e]) = Some (snd e)" by simp_all
  moreover from Cons.prems have "path_join [cacheDirectory, zip_name e] = fst e"
    by (simp add: listed_def)
  ultimately show ?case by (simp add: zip_info_def)
qed

lemma getCacheFileInfos_eq: "wf_fs s \<Longrightarrow> getCacheFileInfos s = map zip_info (cache_zips s)"
  by (simp add: getCacheFileInfos_def getZipFiles_eq collectFileInfos_listed listed_cache_zips)

lemma flushOlder_loop_listed:
  "listed s zs \<Longrightarrow>
   flushOlder_loop cutoff (map zip_name zs) (t, c, s) =
     (t + total_size (filter (\<lambda>e. fmtime (snd e) < cutoff) zs),
      c + length (filter (\<lambda>e. fmtime (snd e) < cutoff) zs),
      remove_paths (map fst (filter (\<lambda>e. fmtime (snd e) < cutoff) zs)) s)"
proof (induction zs arbitrary: t c s)
  case Nil
  show ?case by (simp add: total_size_def remove_paths_Nil)
next
  case (Cons e zs)
  note h = listed_head [OF Cons.prems]
  show ?case
  proof (cases "fmtime (snd e) < cutoff")
    case True
    with h(1,2) Cons.IH [OF h(4)] show ?thesis
      by (simp add: total_size_def remove_paths_remove_paths)
  next
    case False
    with h(1) Cons.IH [OF h(5)] show ?thesis
      by (simp add: total_size_def)
  qed
qed

lemma flushAll_loop_listed:
  "listed s zs \<Longrightarrow>
   flushAll_loop (map zip_name zs) (t, c, s) =
     (t + total_size zs, c + length zs, remove_paths (map fst zs) s)"
proof (induction zs arbitrary: t c s)
  case Nil
  show ?case by (simp add: total_size_def remove_paths_Nil)
next
  case (Cons e zs)
  note h = listed_head [OF Cons.prems]
  from h(1,2) Cons.IH [OF h(4)] show ?case
    by (simp add: total_size_def remove_paths_remove_paths)
qed

lemma stats_loop_listed:
  "listed s zs \<Longrightarrow>
   stats_loop s (map zip_name zs) (t, oldest) =
     (t + total_size zs, fold (\<lambda>e acc. if fmtime (snd e) < acc then fmtime (snd e) else acc) zs oldest)"
proof (induction zs arbitrary: t oldest)
  case Nil
  show ?case by (simp add: total_size_def)
next
  case (Cons e zs)
  note h = listed_head [OF Cons.prems]
  from h(1) Cons.IH [OF h(5)] show ?case
    by (simp add: total_size_def)
qed

lemma evict_loop_listed:
  "listed s zs \<Longrightarrow>
   evict_loop (map zip_info zs) r s =
     (map fst (take (evict_prefix zs r) zs), remove_paths (map fst (take (evict_prefix zs r) zs)) s)"
proof (induction zs arbitrary: r s)
  case Nil
  show ?case by (simp add: remove_paths_Nil)
next
  case (Cons e zs)
  note h = listed_head [OF Cons.prems]
  show ?case
  proof (cases "bytesToMB (r - fsize (snd e)) \<le> 100 * maxCacheSizeMB")
    case True
    with h(3) show ?thesis by (simp add: zip_info_def Let_def)
  next
    case False
    with h(3) Cons.IH [OF h(4)] show ?thesis
      by (simp add: zip_info_def remove_paths_remove_paths Let_def)
  qed
qed


section \<open>Properties of the cache maintenance\<close>

lemma insort_key_map:
  "insort_key f (g x) (map g ys) = map g (insort_key (\<lambda>x. f (g x)) x ys)"
  by (induction ys) simp_all

lemma sort_key_map: "sort_key f (map g xs) = map g (sort_key (\<lambda>x. f (g x)) xs)"
  by (induction xs) (simp_all add: insort_key_map)

lemma listed_sort_key:
  assumes "listed s zs"
  shows "listed s (sort_key f zs)"
proof -
  have "mset (map fst (sort_key f zs)) = mset (map fst zs)" by simp
  then have "distinct (map fst (sort_key f zs)) = distinct (map fst zs)"
    by (rule mset_eq_imp_distinct_iff)
  with assms show ?thesis by (simp add: listed_def)
qed

lemma total_size_Cons: "total_size (e # zs) = fsize (snd e) + total_size zs"
  by (simp add: total_size_def)

lemma evict_prefix_le: "evict_prefix zs r \<le> length zs"
  by (induction zs arbitrary: r) simp_all

lemma evict_prefix_pos: "zs \<noteq> [] \<Longrightarrow> 1 \<le> evict_prefix zs r"
  by (cases zs) simp_all

lemma evict_prefix_before:
  "1 \<le> j \<Longrightarrow> j < evict_prefix zs r \<Longrightarrow>
     100 * maxCacheSizeMB < bytesToMB (r - total_size (take j zs))"
proof (induction zs arbitrary: r j)
  case Nil
  then show ?case by simp
next
  case (Cons e zs)
  from Cons.prems have c: "\<not> bytesToMB (r - fsize (snd e)) \<le> 100 * maxCacheSizeMB"
    and p: "j < 1 + evict_prefix zs (r - fsize (snd e))"
    by (simp_all split: if_splits)
  from Cons.prems(1) obtain i where j: "j = Suc i" by (cases j) simp_all
  show ?case
  proof (cases i)
    case 0
    with j c show ?thesis by (simp add: total_size_def)
  next
    case (Suc i')
    with j p have "1 \<le> i" "i < evict_prefix zs (r - fsize (snd e))" by simp_all
    from Cons.IH [OF this] j show ?thesis
      by (simp add: total_size_Cons algebra_simps)
  qed
qed

lemma evict_prefix_stop:
  "evict_prefix zs r < length zs \<Longrightarrow>
     bytesToMB (r - total_size (take (evict_prefix zs r) zs)) \<le> 100 * maxCacheSizeMB"
proof (induction zs arbitrary: r)
  case Nil
  then show ?case by simp
next
  case (Cons e zs)
  show ?case
  proof (cases "bytesToMB (r - fsize (snd e)) \<le> 100 * maxCacheSizeMB")
    case True
    then show ?thesis by (simp add: total_size_def)
  next
    case False
    with Cons.prems have "evict_prefix zs (r - fsize (snd e)) < length zs" by simp
    from Cons.IH [OF this] False show ?thesis
      by (simp add: total_size_Cons algebra_simps)
  qed
qed

lemma sorted_take_drop:
  assumes "sorted (map f xs)" and "a \<in> set (take k xs)" and "b \<in> set (drop k xs)"
  shows "f a \<le> f b"
proof -
  have "sorted (map f (take k xs) @ map f (drop k xs))"
    using assms(1) by (simp flip: map_append)
  with assms(2,3) show ?thesis by (auto simp: sorted_append)
qed

lemma sum_zip_info: "sum_list (map (ci_size \<circ> zip_info) zs) = total_size zs"
  by (simp add: total_size_def zip_info_def comp_def)

lemma bytesToMB_zero: "bytesToMB 0 \<le> 100 * maxCacheSizeMB"
  by (simp add: bytesToMB_def maxCacheSizeMB_def)

lemma enforceMaxCacheSize_eq:
  assumes "wf_fs s"
  shows "enforceMaxCacheSize s =
     (if bytesToMB (total_size (cache_zips s)) \<le> 100 * maxCacheSizeMB then ([], s)
      else (map fst (take (evict_prefix (sort_key (\<lambda>e. fmtime (snd e)) (cache_zips s))
                             (total_size (cache_zips s)))
                       (sort_key (\<lambda>e. fmtime (snd e)) (cache_zips s))),
            remove_paths
              (map fst (take (evict_prefix (sort_key (\<lambda>e. fmtime (snd e)) (cache_zips s))
                                (total_size (cache_zips s)))
                          (sort_key (\<lambda>e. fmtime (snd e)) (cache_zips s)))) s))"
proof -
  have m: "(\<lambda>x. ci_mtime (zip_info x)) = (\<lambda>e. fmtime (snd e))"
    by (simp add: zip_info_def)
  have l: "listed s (sort_key (\<lambda>e. fmtime (snd e)) (cache_zips s))"
    using assms by (intro listed_sort_key listed_cache_zips)
  show ?thesis
    by (simp add: enforceMaxCacheSize_def getCacheFileInfos_eq [OF assms] sum_zip_info
        sort_key_map m evict_loop_listed [OF l] Let_def)
qed

lemma flushCacheOlderThan_eq:
  assumes "wf_fs s"
  shows "flushCacheOlderThan ageInMs now s =
     (\<lparr>deletedFiles = length (filter (\<lambda>e. fmtime (snd e) < now - ageInMs) (cache_zips s)),
       totalSizeMB = bytesToMB (total_size (filter (\<lambda>e. fmtime (snd e) < now - ageInMs) (cache_zips s)))\<rparr>,
      remove_paths (map fst (filter (\<lambda>e. fmtime (snd e) < now - ageInMs) (cache_zips s))) s)"
  by (simp add: flushCacheOlderThan_def getZipFiles_eq
      flushOlder_loop_listed [OF listed_cache_zips [OF assms]] Let_def)

lemma distinct_fst_filter_iff:
  assumes "distinct (map fst xs)" and "e \<in> set xs"
  shows "fst e \<in> set (map fst (filter P xs)) \<longleftrightarrow> P e"
proof
  assume "fst e \<in> set (map fst (filter P xs))"
  then obtain x where x: "x \<in> set xs" "P x" "fst x = fst e" by auto
  from assms(1) have "inj_on fst (set xs)" by (simp add: distinct_map)
  from this x(3) x(1) assms(2) have "x = e" by (rule inj_onD)
  with x(2) show "P e" by simp
next
  assume "P e"
  with assms(2) show "fst e \<in> set (map fst (filter P xs))" by force
qed

lemma remove_filtered_paths:
  assumes "distinct (map fst xs)"
  shows "filter (\<lambda>e. fst e \<notin> set (map fst (filter P xs))) xs = filter (\<lambda>e. \<not> P e) xs"
  by (rule filter_cong [OF refl]) (simp only: distinct_fst_filter_iff [OF assms])


lemma filter_cache_zips:
  "filter P (cache_zips s) = filter (\<lambda>e. is_cache_zip (fst e) \<and> P e) (files s)"
  by (simp add: cache_zips_def)

text \<open>
  Claim C5.  \<open>flushCacheOlderThan(d)\<close> at the time \<open>now\<close> deletes exactly the cached artifacts
  whose age \<open>now - mtime\<close> is greater than \<open>d\<close>: every other file, in particular every
  artifact of age at most \<open>d\<close>, stays as it is.  It reports the number of files deleted and
  their total size, converted by \<open>bytesToMB\<close>.
\<close>

theorem flushCacheOlderThan_removes_exactly_older:
  assumes "wf_fs s"
  shows "flushCacheOlderThan ageInMs now s =
     (\<lparr>deletedFiles =
         length (filter (\<lambda>e. is_cache_zip (fst e) \<and> ageInMs < now - fmtime (snd e)) (files s)),
       totalSizeMB =
         bytesToMB (total_size
           (filter (\<lambda>e. is_cache_zip (fst e) \<and> ageInMs < now - fmtime (snd e)) (files s)))\<rparr>,
      s\<lparr>files :=
          filter (\<lambda>e. \<not> (is_cache_zip (fst e) \<and> ageInMs < now - fmtime (snd e))) (files s)\<rparr>)"
proof -
  have a: "(\<lambda>e :: string \<times> file_node. fmtime (snd e) < now - ageInMs)
             = (\<lambda>e. ageInMs < now - fmtime (snd e))"
    by (rule ext) linarith
  from assms have d: "distinct (map fst (files s))" by (simp add: wf_fs_def)
  show ?thesis
    unfolding flushCacheOlderThan_eq [OF assms] a filter_cache_zips remove_paths_def
      remove_filtered_paths [OF d] ..
qed

theorem flushCacheOlderThan_removes_exactly_older_witness:
  "wf_fs example_cache_state
   \<and> flushCacheOlderThan 8500 10000 example_cache_state =
       (\<lparr>deletedFiles = 1, totalSizeMB = 286102\<rparr>,
        example_cache_state\<lparr>files :=
          [(''/tmp/photo-cache/notes.txt'',
              \<lparr>fsize = 10, fmtime = 500, fentries = [], ffinalized = False\<rparr>),
           (''/tmp/photo-cache/bbbb.zip'',
              \<lparr>fsize = 3000000000, fmtime = 2000, fentries = [], ffinalized = True\<rparr>),
           (''/tmp/photo-cache/cccc.zip.tmp'',
              \<lparr>fsize = 123, fmtime = 300, fentries = [], ffinalized = False\<rparr>)]\<rparr>)"
proof -
  have h: "wf_fs example_cache_state" by code_simp
  have z: "is_cache_zip ''/tmp/photo-cache/aaaa.zip''" "\<not> is_cache_zip ''/tmp/photo-cache/notes.txt''"
    "is_cache_zip ''/tmp/photo-cache/bbbb.zip''" "\<not> is_cache_zip ''/tmp/photo-cache/cccc.zip.tmp''"
    by code_simp+
  have f: "files example_cache_state =
        [(''/tmp/photo-cache/aaaa.zip'',
            \<lparr>fsize = 3000000000, fmtime = 1000, fentries = [], ffinalized = True\<rparr>),
         (''/tmp/photo-cache/notes.txt'',
            \<lparr>fsize = 10, fmtime = 500, fentries = [], ffinalized = False\<rparr>),
         (''/tmp/photo-cache/bbbb.zip'',
            \<lparr>fsize = 3000000000, fmtime = 2000, fentries = [], ffinalized = True\<rparr>),
         (''/tmp/photo-cache/cccc.zip.tmp'',
            \<lparr>fsize = 123, fmtime = 300, fentries = [], ffinalized = False\<rparr>)]"
    by (simp add: example_cache_state_def)
  from flushCacheOlderThan_removes_exactly_older [OF h, of 8500 10000] h show ?thesis
    by (simp add: f z total_size_def bytesToMB_def)
qed


text \<open>
  Claim C4, as amended.  Sizes are compared in megabytes rounded to two decimals
  (\<open>bytesToMB\<close>).  When the rounded total size of the cached artifacts is at most the ceiling
  (5000 MB), nothing is deleted.  Otherwise the artifacts are taken in ascending order of
  modification time (a stable sort of the directory listing) and the first \<open>k\<close> of them are
  deleted, where \<open>k \<ge> 1\<close> is the first count after which the rounded remaining size is at most
  the ceiling, or the number of artifacts if there is no such count; every deleted artifact
  is at most as recent as every artifact that stays.
\<close>

theorem enforceMaxCacheSize_evicts_oldest_first:
  assumes "wf_fs s"
  shows "let zips = sort_key (\<lambda>e. fmtime (snd e)) (cache_zips s);
             total = total_size (cache_zips s)
         in if bytesToMB total \<le> 100 * maxCacheSizeMB then enforceMaxCacheSize s = ([], s)
            else (\<exists>k. 1 \<le> k \<and> k \<le> length zips
                   \<and> enforceMaxCacheSize s
                       = (map fst (take k zips), remove_paths (map fst (take k zips)) s)
                   \<and> (\<forall>j. 1 \<le> j \<and> j < k \<longrightarrow>
                         100 * maxCacheSizeMB < bytesToMB (total - total_size (take j zips)))
                   \<and> (k = length zips
                        \<or> bytesToMB (total - total_size (take k zips)) \<le> 100 * maxCacheSizeMB)
                   \<and> (\<forall>a \<in> set (take k zips). \<forall>b \<in> set (drop k zips).
                         fmtime (snd a) \<le> fmtime (snd b)))"
proof -
  define zips where "zips = sort_key (\<lambda>e. fmtime (snd e)) (cache_zips s)"
  define total where "total = total_size (cache_zips s)"
  define k where "k = evict_prefix zips total"
  have "enforceMaxCacheSize s = ([], s)" if "bytesToMB total \<le> 100 * maxCacheSizeMB"
    using that by (simp add: enforceMaxCacheSize_eq [OF assms] total_def)
  moreover have "\<exists>k. 1 \<le> k \<and> k \<le> length zips
                   \<and> enforceMaxCacheSize s
                       = (map fst (take k zips), remove_paths (map fst (take k zips)) s)
                   \<and> (\<forall>j. 1 \<le> j \<and> j < k \<longrightarrow>
                         100 * maxCacheSizeMB < bytesToMB (total - total_size (take j zips)))
                   \<and> (k = length zips
                        \<or> bytesToMB (total - total_size (take k zips)) \<le> 100 * maxCacheSizeMB)
                   \<and> (\<forall>a \<in> set (take k zips). \<forall>b \<in> set (drop k zips).
                         fmtime (snd a) \<le> fmtime (snd b))"
    if over: "\<not> bytesToMB total \<le> 100 * maxCacheSizeMB"
  proof -
    have ne: "zips \<noteq> []"
    proof
      assume "zips = []"
      moreover have "length zips = length (cache_zips s)" by (simp add: zips_def)
      ultimately have "cache_zips s = []" by simp
      then have "total = 0" by (simp add: total_def total_size_def)
      with over bytesToMB_zero show False by simp
    qed
    have 1: "1 \<le> k" unfolding k_def using ne by (rule evict_prefix_pos)
    have 2: "k \<le> length zips" unfolding k_def by (rule evict_prefix_le)
    have 3: "enforceMaxCacheSize s = (map fst (take k zips), remove_paths (map fst (take k zips)) s)"
      using over by (simp add: enforceMaxCacheSize_eq [OF assms] total_def zips_def k_def)
    have 4: "100 * maxCacheSizeMB < bytesToMB (total - total_size (take j zips))"
      if "1 \<le> j \<and> j < k" for j
      using that unfolding k_def by (intro evict_prefix_before) simp_all
    have 5: "k = length zips \<or> bytesToMB (total - total_size (take k zips)) \<le> 100 * maxCacheSizeMB"
    proof (cases "k < length zips")
      case True
      then show ?thesis unfolding k_def by (intro disjI2 evict_prefix_stop)
    next
      case False
      with 2 show ?thesis by simp
    qed
    have "sorted (map (\<lambda>e. fmtime (snd e)) zips)" by (simp add: zips_def)
    then have 6: "fmtime (snd a) \<le> fmtime (snd b)"
      if "a \<in> set (take k zips)" "b \<in> set (drop k zips)" for a b
      using that by (rule sorted_take_drop)
    from 1 2 3 4 5 6 show ?thesis by blast
  qed
  ultimately show ?thesis
    unfolding Let_def zips_def [symmetric] total_def [symmetric] by simp
qed

text \<open>
  An instance of claim C4: two artifacts of 3000000000 bytes (5722.05 MB together); the
  older one is deleted and 2861.02 MB remain.
\<close>

theorem enforceMaxCacheSize_evicts_oldest_first_witness:
  "wf_fs example_cache_state
   \<and> \<not> bytesToMB (total_size (cache_zips example_cache_state)) \<le> 100 * maxCacheSizeMB
   \<and> (\<exists>k. 1 \<le> k
        \<and> enforceMaxCacheSize example_cache_state
            = (map fst (take k (sort_key (\<lambda>e. fmtime (snd e)) (cache_zips example_cache_state))),
               remove_paths
                 (map fst (take k (sort_key (\<lambda>e. fmtime (snd e)) (cache_zips example_cache_state))))
                 example_cache_state))
   \<and> fst (enforceMaxCacheSize example_cache_state) = [''/tmp/photo-cache/aaaa.zip'']"
proof -
  have h: "wf_fs example_cache_state" by code_simp
  have o: "\<not> bytesToMB (total_size (cache_zips example_cache_state)) \<le> 100 * maxCacheSizeMB"
    by code_simp
  have e: "fst (enforceMaxCacheSize example_cache_state) = [''/tmp/photo-cache/aaaa.zip'']"
    by code_simp
  from enforceMaxCacheSize_evicts_oldest_first [OF h] o
  have "\<exists>k. 1 \<le> k
        \<and> enforceMaxCacheSize example_cache_state
            = (map fst (take k (sort_key (\<lambda>e. fmtime (snd e)) (cache_zips example_cache_state))),
               remove_paths
                 (map fst (take k (sort_key (\<lambda>e. fmtime (snd e)) (cache_zips example_cache_state))))
                 example_cache_state)"
    unfolding Let_def by (simp only: if_False) blast
  with h o e show ?thesis by blast
qed

text \<open>
  Claim C4 as stated fails by the rounding: one artifact of 5242880001 bytes is one byte
  above the ceiling of 5000 MB (5242880000 bytes), its size rounds to 5000.00 MB, and
  nothing is deleted.
\<close>

theorem enforceMaxCacheSize_rounding_counterexample:
  "wf_fs oversize_cache_state
   \<and> total_size (cache_zips oversize_cache_state) = 5242880001
   \<and> maxCacheSizeMB * 1024 * 1024 < total_size (cache_zips oversize_cache_state)
   \<and> enforceMaxCacheSize oversize_cache_state = ([], oversize_cache_state)"
  by code_simp


lemma next_fault_frame:
  "next_fault s = (b, s1) \<Longrightarrow> files s1 = files s \<and> mem s1 = mem s \<and> counters s1 = counters s"
  by (auto simp: next_fault_def split: list.splits)

lemma counter_get_frame:
  "counter_get key s = (r, s1) \<Longrightarrow> files s1 = files s \<and> mem s1 = mem s \<and> counters s1 = counters s"
  by (cases "next_fault s") (auto simp: counter_get_def dest: next_fault_frame split: bool.splits)

lemma counter_set_frame:
  "counter_set key v s = (r, s1) \<Longrightarrow> files s1 = files s \<and> mem s1 = mem s"
  by (cases "next_fault s") (auto simp: counter_set_def dest: next_fault_frame split: bool.splits)

lemma counter_del_frame:
  "counter_del key s = (r, s1) \<Longrightarrow> files s1 = files s \<and> mem s1 = mem s"
  by (cases "next_fault s") (auto simp: counter_del_def dest: next_fault_frame split: bool.splits)

lemma clearAllRedisCache_frame:
  "files (clearAllRedisCache s) = files s \<and> mem (clearAllRedisCache s) = mem s"
proof (cases "counter_del ''cache:stats:hits'' s")
  case (Pair r s1)
  note f1 = counter_del_frame [OF Pair]
  show ?thesis
  proof (cases r)
    case (Inl e)
    with Pair f1 show ?thesis by (simp add: clearAllRedisCache_def)
  next
    case (Inr u)
    obtain r2 s2 where p2: "counter_del ''cache:stats:misses'' s1 = (r2, s2)"
      by (cases "counter_del ''cache:stats:misses'' s1")
    from counter_del_frame [OF p2] f1 Pair Inr p2 show ?thesis
      by (simp add: clearAllRedisCache_def)
  qed
qed

lemma getCacheMetrics_frame:
  "files (snd (getCacheMetrics s)) = files s \<and> mem (snd (getCacheMetrics s)) = mem s"
proof (cases "counter_get ''cache:stats:hits'' s")
  case (Pair r s1)
  note f1 = counter_get_frame [OF Pair]
  show ?thesis
  proof (cases r)
    case (Inl e)
    with Pair f1 show ?thesis by (simp add: getCacheMetrics_def)
  next
    case (Inr h)
    obtain r2 s2 where p2: "counter_get ''cache:stats:misses'' s1 = (r2, s2)"
      by (cases "counter_get ''cache:stats:misses'' s1")
    from counter_get_frame [OF p2] f1 Pair Inr p2 show ?thesis
      by (cases r2) (simp_all add: getCacheMetrics_def)
  qed
qed

lemma flushAllCache_eq:
  assumes "wf_fs s"
  shows "flushAllCache s =
     (\<lparr>deletedFiles = length (cache_zips s), totalSizeMB = bytesToMB (total_size (cache_zips s))\<rparr>,
      clearAllRedisCache (remove_paths (map fst (cache_zips s)) s))"
  by (simp add: flushAllCache_def getZipFiles_eq
      flushAll_loop_listed [OF listed_cache_zips [OF assms]])

lemma getCacheStats_eq:
  assumes "wf_fs s"
  shows "fileCount (fst (getCacheStats now s)) = length (cache_zips s)"
    and "statsTotalSizeMB (fst (getCacheStats now s)) = bytesToMB (total_size (cache_zips s))"
    and "oldestTime (fst (getCacheStats now s))
           = fold (\<lambda>e acc. if fmtime (snd e) < acc then fmtime (snd e) else acc) (cache_zips s) now"
    and "files (snd (getCacheStats now s)) = files s"
proof -
  obtain h m s1 where g: "getCacheMetrics s = ((h, m), s1)"
    by (cases "getCacheMetrics s") auto
  with getCacheMetrics_frame [of s] have f: "files s1 = files s" by simp
  note l = stats_loop_listed [OF listed_cache_zips [OF assms], of 0 now]
  show "fileCount (fst (getCacheStats now s)) = length (cache_zips s)"
    and "statsTotalSizeMB (fst (getCacheStats now s)) = bytesToMB (total_size (cache_zips s))"
    and "oldestTime (fst (getCacheStats now s))
           = fold (\<lambda>e acc. if fmtime (snd e) < acc then fmtime (snd e) else acc) (cache_zips s) now"
    and "files (snd (getCacheStats now s)) = files s"
    using g f l by (simp_all add: getCacheStats_def getZipFiles_eq Let_def)
qed

lemma other_files_remove_paths:
  assumes "\<And>p. p \<in> set ps \<Longrightarrow> is_cache_zip p"
  shows "filter (\<lambda>e. \<not> is_cache_zip (fst e)) (files (remove_paths ps s))
           = filter (\<lambda>e. \<not> is_cache_zip (fst e)) (files s)"
proof -
  have "(fst e \<notin> set ps \<and> \<not> is_cache_zip (fst e)) = (\<not> is_cache_zip (fst e))" for e :: "string \<times> file_node"
    using assms by blast
  then show ?thesis by (simp add: remove_paths_def)
qed

lemma cache_zips_paths: "p \<in> set (map fst (cache_zips s)) \<Longrightarrow> is_cache_zip p"
  by (auto simp: cache_zips_def)

lemma cache_zips_filter_paths: "p \<in> set (map fst (filter P (cache_zips s))) \<Longrightarrow> is_cache_zip p"
  by (auto simp: cache_zips_def)

lemma cache_zips_take_paths:
  assumes "p \<in> set (map fst (take k (sort_key f (cache_zips s))))"
  shows "is_cache_zip p"
proof -
  from assms obtain e where "e \<in> set (take k (sort_key f (cache_zips s)))" "p = fst e" by auto
  then have "e \<in> set (sort_key f (cache_zips s))" by (auto dest: in_set_takeD)
  then have "e \<in> set (cache_zips s)" by simp
  with \<open>p = fst e\<close> show ?thesis by (simp add: cache_zips_def)
qed

lemma drop_suffix_append:
  assumes "k \<le> length n"
  shows "drop (length (a @ n) - k) (a @ n) = drop (length n - k) n"
proof -
  from assms have "length (a @ n) - k = length a + (length n - k)" by simp
  then show ?thesis by (simp only: drop_append) simp
qed

lemma endsWith_tmp_not_cache_zip:
  assumes "endsWith p ''.tmp''"
  shows "\<not> is_cache_zip p"
proof
  assume "is_cache_zip p"
  then obtain n where c: "child_name cacheDirectory p = Some n" and z: "endsWith n ''.zip''"
    by (auto simp: is_cache_zip_def split: option.splits)
  from child_name_SomeD(1) [OF c] have p: "p = (cacheDirectory @ ''/'') @ n" by simp
  have l4: "length (''.zip'' :: string) = 4" "length (''.tmp'' :: string) = 4" by simp_all
  from z have ln: "4 \<le> length n" and dn: "drop (length n - 4) n = ''.zip''"
    unfolding endsWith_def l4 by blast+
  from assms have dp: "drop (length p - 4) p = ''.tmp''"
    unfolding endsWith_def l4 by blast
  from ln have "drop (length p - 4) p = drop (length n - 4) n"
    unfolding p by (rule drop_suffix_append)
  with dn dp have "(''.zip'' :: string) = ''.tmp''" by simp
  then show False by simp
qed

lemma other_files_enforce:
  assumes "wf_fs s"
  shows "filter (\<lambda>e. \<not> is_cache_zip (fst e)) (files (snd (enforceMaxCacheSize s)))
           = filter (\<lambda>e. \<not> is_cache_zip (fst e)) (files s)"
proof -
  have "filter (\<lambda>e. \<not> is_cache_zip (fst e))
          (files (remove_paths (map fst (take k (sort_key f (cache_zips s)))) s))
        = filter (\<lambda>e. \<not> is_cache_zip (fst e)) (files s)" for k and f :: "string \<times> file_node \<Rightarrow> int"
    by (rule other_files_remove_paths) (rule cache_zips_take_paths)
  then show ?thesis by (simp add: enforceMaxCacheSize_eq [OF assms])
qed

lemma other_files_flushOlder:
  assumes "wf_fs s"
  shows "filter (\<lambda>e. \<not> is_cache_zip (fst e)) (files (snd (flushCacheOlderThan ageInMs now s)))
           = filter (\<lambda>e. \<not> is_cache_zip (fst e)) (files s)"
proof -
  have "filter (\<lambda>e. \<not> is_cache_zip (fst e))
          (files (remove_paths (map fst (filter P (cache_zips s))) s))
        = filter (\<lambda>e. \<not> is_cache_zip (fst e)) (files s)" for P
    by (rule other_files_remove_paths) (rule cache_zips_filter_paths)
  then show ?thesis by (simp add: flushCacheOlderThan_eq [OF assms])
qed

lemma other_files_flushAll:
  assumes "wf_fs s"
  shows "filter (\<lambda>e. \<not> is_cache_zip (fst e)) (files (snd (flushAllCache s)))
           = filter (\<lambda>e. \<not> is_cache_zip (fst e)) (files s)"
proof -
  have "filter (\<lambda>e. \<not> is_cache_zip (fst e)) (files (remove_paths (map fst (cache_zips s)) s))
        = filter (\<lambda>e. \<not> is_cache_zip (fst e)) (files s)"
    by (rule other_files_remove_paths) (rule cache_zips_paths)
  then show ?thesis by (simp add: flushAllCache_eq [OF assms] clearAllRedisCache_frame)
qed

text \<open>
  Claim C10.  Size enforcement, the flush by age, the full flush and the statistics leave
  every file that is not a cached artifact (not directly in the cache directory, or with a
  name that does not end in \<open>.zip\<close>) as it is, in place and content; what they delete and what
  they report is the same on every file system with the same cached artifacts; the full
  flush and the statistics count the cached artifacts and their sizes only; and a file whose
  name ends in \<open>.tmp\<close>, such as the temporary file \<open>key.zip.tmp\<close> of a generation, is not a
  cached artifact.
\<close>

theorem cache_management_touches_zip_files_only:
  assumes "wf_fs s"
  shows "filter (\<lambda>e. \<not> is_cache_zip (fst e)) (files (snd (enforceMaxCacheSize s)))
           = filter (\<lambda>e. \<not> is_cache_zip (fst e)) (files s)
       \<and> filter (\<lambda>e. \<not> is_cache_zip (fst e)) (files (snd (flushCacheOlderThan ageInMs now s)))
           = filter (\<lambda>e. \<not> is_cache_zip (fst e)) (files s)
       \<and> filter (\<lambda>e. \<not> is_cache_zip (fst e)) (files (snd (flushAllCache s)))
           = filter (\<lambda>e. \<not> is_cache_zip (fst e)) (files s)
       \<and> files (snd (getCacheStats now s)) = files s
       \<and> (\<forall>s'. wf_fs s' \<and> cache_zips s' = cache_zips s \<longrightarrow>
             fst (enforceMaxCacheSize s') = fst (enforceMaxCacheSize s)
           \<and> fst (flushCacheOlderThan ageInMs now s') = fst (flushCacheOlderThan ageInMs now s)
           \<and> fst (flushAllCache s') = fst (flushAllCache s)
           \<and> fileCount (fst (getCacheStats now s')) = fileCount (fst (getCacheStats now s))
           \<and> statsTotalSizeMB (fst (getCacheStats now s'))
               = statsTotalSizeMB (fst (getCacheStats now s))
           \<and> oldestTime (fst (getCacheStats now s')) = oldestTime (fst (getCacheStats now s)))
       \<and> fst (flushAllCache s)
           = \<lparr>deletedFiles = length (cache_zips s),
              totalSizeMB = bytesToMB (total_size (cache_zips s))\<rparr>
       \<and> fileCount (fst (getCacheStats now s)) = length (cache_zips s)
       \<and> statsTotalSizeMB (fst (getCacheStats now s)) = bytesToMB (total_size (cache_zips s))
       \<and> (\<forall>p. endsWith p ''.tmp'' \<longrightarrow> \<not> is_cache_zip p)"
proof -
  have same: "fst (enforceMaxCacheSize s') = fst (enforceMaxCacheSize s)
           \<and> fst (flushCacheOlderThan ageInMs now s') = fst (flushCacheOlderThan ageInMs now s)
           \<and> fst (flushAllCache s') = fst (flushAllCache s)
           \<and> fileCount (fst (getCacheStats now s')) = fileCount (fst (getCacheStats now s))
           \<and> statsTotalSizeMB (fst (getCacheStats now s'))
               = statsTotalSizeMB (fst (getCacheStats now s))
           \<and> oldestTime (fst (getCacheStats now s')) = oldestTime (fst (getCacheStats now s))"
    if w: "wf_fs s'" and z: "cache_zips s' = cache_zips s" for s'
    by (simp add: enforceMaxCacheSize_eq [OF w] enforceMaxCacheSize_eq [OF assms]
        flushCacheOlderThan_eq [OF w] flushCacheOlderThan_eq [OF assms]
        flushAllCache_eq [OF w] flushAllCache_eq [OF assms]
        getCacheStats_eq(1,2,3) [OF w] getCacheStats_eq(1,2,3) [OF assms] z)
  have fa: "fst (flushAllCache s)
           = \<lparr>deletedFiles = length (cache_zips s),
              totalSizeMB = bytesToMB (total_size (cache_zips s))\<rparr>"
    by (simp add: flushAllCache_eq [OF assms])
  from same fa other_files_enforce [OF assms] other_files_flushOlder [OF assms]
    other_files_flushAll [OF assms] getCacheStats_eq [OF assms] endsWith_tmp_not_cache_zip
  show ?thesis by blast
qed

text \<open>
  An instance of claim C10: the full flush of a cache directory with two artifacts, a text
  file and a temporary file deletes and reports the two artifacts.
\<close>

theorem cache_management_touches_zip_files_only_witness:
  "wf_fs example_cache_state
   \<and> endsWith ''/tmp/photo-cache/cccc.zip.tmp'' ''.tmp''
   \<and> \<not> is_cache_zip ''/tmp/photo-cache/cccc.zip.tmp''
   \<and> map fst (files (snd (flushAllCache example_cache_state)))
       = [''/tmp/photo-cache/notes.txt'', ''/tmp/photo-cache/cccc.zip.tmp'']
   \<and> fst (flushAllCache example_cache_state)
       = \<lparr>deletedFiles = length (cache_zips example_cache_state),
          totalSizeMB = bytesToMB (total_size (cache_zips example_cache_state))\<rparr>
   \<and> length (cache_zips example_cache_state) = 2"
proof -
  have h: "wf_fs example_cache_state" by code_simp
  have t: "endsWith ''/tmp/photo-cache/cccc.zip.tmp'' ''.tmp''" by code_simp
  have e: "map fst (files (snd (flushAllCache example_cache_state)))
       = [''/tmp/photo-cache/notes.txt'', ''/tmp/photo-cache/cccc.zip.tmp'']" by code_simp
  have l: "length (cache_zips example_cache_state) = 2" by code_simp
  note c = cache_management_touches_zip_files_only [OF h, of 0 0]
  from c have "\<forall>p. endsWith p ''.tmp'' \<longrightarrow> \<not> is_cache_zip p" by (elim conjE)
  with t have n: "\<not> is_cache_zip ''/tmp/photo-cache/cccc.zip.tmp''" by blast
  from c have f: "fst (flushAllCache example_cache_state)
       = \<lparr>deletedFiles = length (cache_zips example_cache_state),
          totalSizeMB = bytesToMB (total_size (cache_zips example_cache_state))\<rparr>"
    by (elim conjE)
  from h t n e f l show ?thesis by (intro conjI)
qed


section \<open>Properties of the archive paths\<close>

lemma segments_nonempty: "segments a \<noteq> []"
  by (induction a) (auto split: list.splits)

lemma segments_append: "segments (a @ CHR ''/'' # r) = segments a @ segments r"
proof (induction a)
  case Nil
  show ?case by simp
next
  case (Cons c a)
  obtain x xs where s: "segments a = x # xs"
    using segments_nonempty [of a] by (cases "segments a") auto
  with Cons show ?case by simp
qed

lemma join_with_snoc:
  "res \<noteq> [] \<Longrightarrow> join_with sep (res @ [n]) = join_with sep res @ sep @ n"
  by (induction sep res rule: join_with.induct) simp_all

lemma cacheDirectory_segments:
  "foldl (normalize_segment False) [] (segments cacheDirectory) = [''tmp'', ''photo-cache'']"
  by code_simp

lemma cacheDirectory_eq: "cacheDirectory = CHR ''/'' # join_with ''/'' [''tmp'', ''photo-cache'']"
  by code_simp

lemma path_join_cacheDirectory:
  assumes n: "CHR ''/'' \<notin> set n" and r: "n \<noteq> []" "n \<noteq> ''.''" "n \<noteq> ''..''"
  shows "path_join [cacheDirectory, n] = cacheDirectory @ ''/'' @ n"
proof -
  let ?p = "cacheDirectory @ CHR ''/'' # n"
  have seg: "segments ?p = segments cacheDirectory @ [n]"
    using n by (simp add: segments_append segments_no_slash)
  have "foldl (normalize_segment False) [] (segments ?p) = [''tmp'', ''photo-cache''] @ [n]"
    unfolding seg foldl_append cacheDirectory_segments using r
    by (simp add: normalize_segment_regular)
  then have ns: "normalizeString ?p False = join_with ''/'' [''tmp'', ''photo-cache''] @ ''/'' @ n"
    unfolding normalizeString_def by (simp only: join_with_snoc) simp
  have hd: "hd ?p = CHR ''/''" by (simp add: cacheDirectory_eq)
  have ne: "?p \<noteq> []" by simp
  have la: "last ?p \<noteq> CHR ''/''" using n r(1) by (simp add: last_not_slash)
  have nn: "normalizeString ?p False \<noteq> []" unfolding ns by simp
  have "path_normalize ?p = CHR ''/'' # normalizeString ?p False"
    using hd ne la nn by (simp add: path_normalize_def Let_def)
  also have "\<dots> = ?p" unfolding ns by (simp add: cacheDirectory_eq)
  finally have "path_normalize ?p = ?p" .
  moreover have "path_join [cacheDirectory, n] = path_normalize ?p"
    using r(1) cacheDirectory_nonempty by (simp add: path_join_def)
  ultimately show ?thesis by simp
qed

lemma hex_digit_in_digits: "k < 16 \<Longrightarrow> hex_digit k \<in> set ''0123456789abcdef''"
  unfolding hex_digit_def by (rule nth_mem) simp

lemma hex_nat_digits: "set (hex_nat n v) \<subseteq> set ''0123456789abcdef''"
proof -
  define D where "D = set ''0123456789abcdef''"
  have d: "hex_digit (w mod 16) \<in> D" for w
    unfolding D_def by (rule hex_digit_in_digits) simp
  have "set (hex_nat n v) \<subseteq> D"
  proof (induction n arbitrary: v)
    case 0
    show ?case by simp
  next
    case (Suc n)
    from Suc [of "v div 16"] d [of v] show ?case by simp
  qed
  then show ?thesis by (simp only: D_def)
qed

lemma sha256_hex_digits: "set (sha256_hex msg) \<subseteq> set ''0123456789abcdef''"
proof -
  define D where "D = set ''0123456789abcdef''"
  have "set (hex_nat 8 w) \<subseteq> D" for w
    unfolding D_def by (rule hex_nat_digits)
  then have "set (sha256_hex msg) \<subseteq> D"
    unfolding sha256_hex_def by auto
  then show ?thesis by (simp only: D_def)
qed

lemma generateCacheKey_no_slash: "CHR ''/'' \<notin> set (generateCacheKey directoryPaths)"
proof -
  have "set (generateCacheKey directoryPaths) \<subseteq> set ''0123456789abcdef''"
    unfolding generateCacheKey_def Let_def
    using sha256_hex_digits set_take_subset by (rule order_trans [rotated])
  moreover have "CHR ''/'' \<notin> set ''0123456789abcdef''" by simp
  ultimately show ?thesis by blast
qed

lemma zip_file_name_regular:
  "k @ ''.zip'' \<noteq> []" "k @ ''.zip'' \<noteq> ''.''" "k @ ''.zip'' \<noteq> ''..''"
proof -
  have "4 \<le> length (k @ ''.zip'')" by simp
  then show "k @ ''.zip'' \<noteq> []" "k @ ''.zip'' \<noteq> ''.''" "k @ ''.zip'' \<noteq> ''..''"
    by (auto dest: arg_cong [where f = length])
qed

lemma getZipPath_eq:
  "getZipPath directoryPaths = cacheDirectory @ ''/'' @ generateCacheKey directoryPaths @ ''.zip''"
proof -
  have "CHR ''/'' \<notin> set (generateCacheKey directoryPaths @ ''.zip'')"
    using generateCacheKey_no_slash by simp
  then have "path_join [cacheDirectory, generateCacheKey directoryPaths @ ''.zip'']
      = cacheDirectory @ ''/'' @ generateCacheKey directoryPaths @ ''.zip''"
    using zip_file_name_regular by (rule path_join_cacheDirectory)
  then show ?thesis
    unfolding getZipPath_def Let_def .
qed



lemma getZipPath_nonempty: "getZipPath directoryPaths \<noteq> []"
  by (simp add: getZipPath_eq)

lemma getZipPath_cong:
  "generateCacheKey a = generateCacheKey b \<Longrightarrow> getZipPath a = getZipPath b"
  by (simp add: getZipPath_def)



section \<open>Properties of the lookup\<close>

lemma next_fault_cases:
  obtains s1 where "next_fault s = (True, s1)" "files s1 = files s" "mem s1 = mem s"
      "counters s1 = counters s" "faults s \<noteq> []"
  | s1 where "next_fault s = (False, s1)" "files s1 = files s" "mem s1 = mem s"
      "counters s1 = counters s" "faults s = [] \<longrightarrow> faults s1 = []"
proof (cases "faults s")
  case Nil
  then have "next_fault s = (False, s)" by (simp add: next_fault_def)
  with Nil that(2) [of s] show ?thesis by simp
next
  case (Cons b bs)
  then have n: "next_fault s = (b, s\<lparr>faults := bs\<rparr>)" by (simp add: next_fault_def)
  show ?thesis
  proof (cases b)
    case True
    with n Cons that(1) [of "s\<lparr>faults := bs\<rparr>"] show ?thesis by simp
  next
    case False
    with n Cons that(2) [of "s\<lparr>faults := bs\<rparr>"] show ?thesis by simp
  qed
qed

lemma cm_get_cases:
  obtains s1 where "cm_get key s = (Inl CacheManagerError, s1)" "files s1 = files s"
      "mem s1 = mem s" "faults s \<noteq> []"
  | s1 where "cm_get key s = (Inr (map_of (mem s) key), s1)" "files s1 = files s"
      "mem s1 = mem s" "faults s = [] \<longrightarrow> faults s1 = []"
proof (cases s rule: next_fault_cases)
  case (1 s1)
  then have "cm_get key s = (Inl CacheManagerError, s1)" by (simp add: cm_get_def)
  with 1 that(1) show ?thesis by simp
next
  case (2 s1)
  then have "cm_get key s = (Inr (map_of (mem s) key), s1)" by (simp add: cm_get_def)
  with 2 that(2) show ?thesis by simp
qed

lemma cm_set_cases:
  obtains s1 where "cm_set key v s = (Inl CacheManagerError, s1)" "files s1 = files s"
      "mem s1 = mem s" "faults s \<noteq> []"
  | s1 where "cm_set key v s = (Inr (), s1)" "files s1 = files s"
      "mem s1 = AList.update key v (mem s)" "faults s = [] \<longrightarrow> faults s1 = []"
proof (cases s rule: next_fault_cases)
  case (1 s1)
  then have "cm_set key v s = (Inl CacheManagerError, s1)" by (simp add: cm_set_def)
  with 1 that(1) show ?thesis by simp
next
  case (2 s1)
  then have "cm_set key v s = (Inr (), s1\<lparr>mem := AList.update key v (mem s1)\<rparr>)"
    by (simp add: cm_set_def)
  with 2 that(2) [of "s1\<lparr>mem := AList.update key v (mem s1)\<rparr>"] show ?thesis by simp
qed

lemma cm_del_cases:
  obtains s1 where "cm_del key s = (Inl CacheManagerError, s1)" "files s1 = files s"
      "mem s1 = mem s" "faults s \<noteq> []"
  | s1 where "cm_del key s = (Inr (), s1)" "files s1 = files s"
      "mem s1 = AList.delete key (mem s)" "faults s = [] \<longrightarrow> faults s1 = []"
proof (cases s rule: next_fault_cases)
  case (1 s1)
  then have "cm_del key s = (Inl CacheManagerError, s1)" by (simp add: cm_del_def)
  with 1 that(1) show ?thesis by simp
next
  case (2 s1)
  then have "cm_del key s = (Inr (), s1\<lparr>mem := AList.delete key (mem s1)\<rparr>)"
    by (simp add: cm_del_def)
  with 2 that(2) [of "s1\<lparr>mem := AList.delete key (mem s1)\<rparr>"] show ?thesis by simp
qed

lemma incrementStat_frame:
  "files (incrementStat statType s) = files s \<and> mem (incrementStat statType s) = mem s"
proof (cases "counter_get (''cache:stats:'' @ statType) s")
  case (Pair r s1)
  note f1 = counter_get_frame [OF Pair]
  show ?thesis
  proof (cases r)
    case (Inl e)
    with Pair f1 show ?thesis by (simp add: incrementStat_def)
  next
    case (Inr v)
    obtain r2 s2 where p2:
      "counter_set (''cache:stats:'' @ statType) ((case v of None \<Rightarrow> 0 | Some n \<Rightarrow> n) + 1) s1 = (r2, s2)"
      by (cases "counter_set (''cache:stats:'' @ statType) ((case v of None \<Rightarrow> 0 | Some n \<Rightarrow> n) + 1) s1")
    from counter_set_frame [OF p2] f1 Pair Inr p2 show ?thesis
      by (simp add: incrementStat_def Let_def)
  qed
qed

lemma set_update_subset: "set (AList.update k v al) \<subseteq> insert (k, v) (set al)"
  by (induction al) auto

lemma set_delete_subset: "set (AList.delete k al) \<subseteq> set al"
  by (induction al) auto

lemma fileExists_cong: "files s1 = files s \<Longrightarrow> fileExists s1 p = fileExists s p"
  by (simp add: fileExists_def)

text \<open>
  The outcomes of the file-system part of the lookup: it throws, or it returns the archive
  path, which exists, and registers it, or it returns \<open>null\<close> and leaves the entries alone.
\<close>

lemma getCachedZip_filesystem_cases:
  obtains s1 where "getCachedZip_filesystem key zipPath s = (Inl CacheManagerError, s1)"
      "files s1 = files s" "mem s1 = mem s" "faults s \<noteq> []"
  | s1 where "getCachedZip_filesystem key zipPath s = (Inr (Some zipPath), s1)"
      "files s1 = files s" "mem s1 = AList.update key zipPath (mem s)" "fileExists s zipPath"
  | s1 where "getCachedZip_filesystem key zipPath s = (Inr None, s1)"
      "files s1 = files s" "mem s1 = mem s" "\<not> fileExists s zipPath"
proof (cases "fileExists s zipPath")
  case False
  then have "getCachedZip_filesystem key zipPath s = (Inr None, incrementStat ''misses'' s)"
    by (simp add: getCachedZip_filesystem_def)
  with False incrementStat_frame [of "''misses''" s] that(3) show ?thesis by simp
next
  case True
  show ?thesis
  proof (cases key zipPath s rule: cm_set_cases)
    case (1 s1)
    with True have "getCachedZip_filesystem key zipPath s = (Inl CacheManagerError, s1)"
      by (simp add: getCachedZip_filesystem_def)
    with 1 that(1) show ?thesis by simp
  next
    case (2 s1)
    with True have "getCachedZip_filesystem key zipPath s
        = (Inr (Some zipPath), incrementStat ''hits'' s1)"
      by (simp add: getCachedZip_filesystem_def)
    with 2 True incrementStat_frame [of "''hits''" s1] that(2) show ?thesis by simp
  qed
qed

text \<open>
  The outcomes of the \<open>try\<close> block, by what it returns.  \<open>hit\<close> says that the result is a
  path that exists and is the archive path or the path of the entry; \<open>kept\<close> says which
  entries the cache manager holds afterwards.
\<close>

lemma getCachedZip_try_cases:
  obtains
    (throws) s1 where "getCachedZip_try key zipPath s = (Inl CacheManagerError, s1)"
      "files s1 = files s" "set (mem s1) \<subseteq> set (mem s)" "faults s \<noteq> []"
  | (hit) s1 q where "getCachedZip_try key zipPath s = (Inr (Some q), s1)"
      "files s1 = files s" "set (mem s1) \<subseteq> insert (key, zipPath) (set (mem s))"
      "fileExists s q" "q = zipPath \<or> map_of (mem s) key = Some q" "q \<noteq> [] \<or> q = zipPath"
  | (miss) s1 where "getCachedZip_try key zipPath s = (Inr None, s1)"
      "files s1 = files s" "set (mem s1) \<subseteq> set (mem s)" "\<not> fileExists s zipPath"
      "\<And>q. map_of (mem s) key = Some q \<Longrightarrow> q \<noteq> [] \<Longrightarrow> \<not> fileExists s q"
      "faults s = [] \<longrightarrow> (\<forall>q. map_of (mem s) key = Some q \<longrightarrow> q \<noteq> [] \<longrightarrow> map_of (mem s1) key = None)"
proof (cases key s rule: cm_get_cases)
  case (1 s1)
  then have "getCachedZip_try key zipPath s = (Inl CacheManagerError, s1)"
    by (simp add: getCachedZip_try_def)
  with 1 throws [of s1] show ?thesis by simp
next
  case get: (2 s1)
  have fallback: thesis
    if t: "getCachedZip_try key zipPath s = getCachedZip_filesystem key zipPath s2"
      and f2: "files s2 = files s" and m2: "set (mem s2) \<subseteq> set (mem s)"
      and fl: "faults s = [] \<longrightarrow> faults s2 = []"
      and stale: "\<And>q. map_of (mem s) key = Some q \<Longrightarrow> q \<noteq> [] \<Longrightarrow>
                  \<not> fileExists s q \<and> map_of (mem s2) key = None"
    for s2
  proof (cases key zipPath s2 rule: getCachedZip_filesystem_cases)
    case (1 s3)
    with t f2 m2 fl throws [of s3] show ?thesis by auto
  next
    case (2 s3)
    have "set (mem s3) \<subseteq> insert (key, zipPath) (set (mem s))"
      using 2(3) m2 set_update_subset [of key zipPath "mem s2"] by auto
    moreover have "fileExists s zipPath" using 2(4) f2 by (simp add: fileExists_def)
    ultimately show ?thesis using t 2 f2 hit [of zipPath s3] by simp
  next
    case (3 s3)
    have "\<not> fileExists s zipPath" using 3(4) f2 by (simp add: fileExists_def)
    then show ?thesis using t 3 f2 m2 stale miss [of s3] by simp
  qed
  show ?thesis
  proof (cases "map_of (mem s) key")
    case None
    with get have "getCachedZip_try key zipPath s = getCachedZip_filesystem key zipPath s1"
      by (simp add: getCachedZip_try_def)
    then show ?thesis using get None by (intro fallback [of s1]) simp_all
  next
    case (Some cached)
    show ?thesis
    proof (cases "cached = []")
      case True
      with get Some have "getCachedZip_try key zipPath s = getCachedZip_filesystem key zipPath s1"
        by (simp add: getCachedZip_try_def)
      then show ?thesis using get Some True by (intro fallback [of s1]) simp_all
    next
      case nonempty: False
      show ?thesis
      proof (cases "fileExists s cached")
        case True
        then have "fileExists s1 cached" using get by (simp add: fileExists_def)
        with get Some nonempty have "getCachedZip_try key zipPath s
            = (Inr (Some cached), incrementStat ''hits'' s1)"
          by (simp add: getCachedZip_try_def)
        with get Some nonempty True incrementStat_frame [of "''hits''" s1]
          hit [of cached "incrementStat ''hits'' s1"]
        show ?thesis by auto
      next
        case False
        then have ne: "\<not> fileExists s1 cached" using get by (simp add: fileExists_def)
        show ?thesis
        proof (cases key s1 rule: cm_del_cases)
          case (1 s2)
          with get Some nonempty ne have "getCachedZip_try key zipPath s = (Inl CacheManagerError, s2)"
            by (simp add: getCachedZip_try_def)
          with 1 get throws [of s2] show ?thesis by auto
        next
          case (2 s2)
          with get Some nonempty ne
          have t: "getCachedZip_try key zipPath s = getCachedZip_filesystem key zipPath s2"
            by (simp add: getCachedZip_try_def)
          have m: "mem s2 = AList.delete key (mem s)" using 2 get by simp
          have "map_of (mem s2) key = None" unfolding m by (simp add: delete_conv)
          moreover have "set (mem s2) \<subseteq> set (mem s)"
            unfolding m by (rule set_delete_subset)
          ultimately show ?thesis using t 2 get Some False
            by (intro fallback [of s2]) simp_all
        qed
      qed
    qed
  qed
qed
lemma getCachedZip_cases:
  obtains
    (hit) s1 q where "getCachedZip directoryPaths s = (Some q, s1)" "files s1 = files s"
      "set (mem s1) \<subseteq> insert (generateCacheKey directoryPaths, getZipPath directoryPaths) (set (mem s))"
      "fileExists s q"
      "q = getZipPath directoryPaths \<or> map_of (mem s) (generateCacheKey directoryPaths) = Some q"
  | (miss) s1 where "getCachedZip directoryPaths s = (None, s1)" "files s1 = files s"
      "set (mem s1) \<subseteq> set (mem s)" "\<not> fileExists s (getZipPath directoryPaths)"
      "faults s = [] \<longrightarrow>
         (\<forall>q. map_of (mem s) (generateCacheKey directoryPaths) = Some q \<longrightarrow> q \<noteq> [] \<longrightarrow>
              map_of (mem s1) (generateCacheKey directoryPaths) = None)"
proof (cases "generateCacheKey directoryPaths" "getZipPath directoryPaths" s
    rule: getCachedZip_try_cases)
  case (throws s1)
  show ?thesis
  proof (cases "fileExists s (getZipPath directoryPaths)")
    case True
    with throws have "getCachedZip directoryPaths s = (Some (getZipPath directoryPaths), s1)"
      by (simp add: getCachedZip_def fileExists_def)
    with throws True hit [of "getZipPath directoryPaths" s1] show ?thesis by auto
  next
    case False
    with throws have "getCachedZip directoryPaths s = (None, s1)"
      by (simp add: getCachedZip_def fileExists_def)
    with throws False miss [of s1] show ?thesis by simp
  qed
next
  case (hit s1 q)
  then have "getCachedZip directoryPaths s = (Some q, s1)" by (simp add: getCachedZip_def)
  with hit that(1) [of q s1] show ?thesis by simp
next
  case (miss s1)
  then have "getCachedZip directoryPaths s = (None, s1)" by (simp add: getCachedZip_def)
  with miss that(2) [of s1] show ?thesis by simp
qed

lemma getCachedZip_files: "files (snd (getCachedZip directoryPaths s)) = files s"
  by (cases rule: getCachedZip_cases [where directoryPaths = directoryPaths and s = s]) simp_all

lemma getCachedZip_exists:
  assumes "fst (getCachedZip directoryPaths s) = Some q"
  shows "fileExists s q"
  using assms
  by (cases rule: getCachedZip_cases [where directoryPaths = directoryPaths and s = s]) simp_all

lemma mem_wf_subset:
  assumes "mem_wf s"
    and "set (mem s1) \<subseteq> insert (generateCacheKey directoryPaths, getZipPath directoryPaths) (set (mem s))"
  shows "mem_wf s1"
  unfolding mem_wf_def
proof
  fix e assume "e \<in> set (mem s1)"
  with assms(2) consider "e = (generateCacheKey directoryPaths, getZipPath directoryPaths)"
    | "e \<in> set (mem s)" by blast
  then show "\<exists>d. fst e = generateCacheKey d \<and> snd e = getZipPath d"
  proof cases
    case 1
    then show ?thesis by auto
  next
    case 2
    with assms(1) show ?thesis by (simp add: mem_wf_def)
  qed
qed

lemma mem_wf_getCachedZip: "mem_wf s \<Longrightarrow> mem_wf (snd (getCachedZip directoryPaths s))"
  by (cases rule: getCachedZip_cases [where directoryPaths = directoryPaths and s = s])
    (auto intro: mem_wf_subset)

lemma mem_wf_entry:
  assumes "mem_wf s" and "map_of (mem s) (generateCacheKey directoryPaths) = Some q"
  shows "q = getZipPath directoryPaths"
proof -
  from assms(2) have "(generateCacheKey directoryPaths, q) \<in> set (mem s)" by (rule map_of_SomeD)
  with assms(1) obtain d where "generateCacheKey directoryPaths = generateCacheKey d" "q = getZipPath d"
    by (auto simp: mem_wf_def)
  then show ?thesis using getZipPath_cong [of directoryPaths d] by simp
qed

lemma getCachedZip_uncached:
  assumes "mem_wf s" and "\<not> fileExists s (getZipPath directoryPaths)"
  shows "fst (getCachedZip directoryPaths s) = None"
proof (cases rule: getCachedZip_cases [where directoryPaths = directoryPaths and s = s])
  case (hit s1 q)
  from hit(5) mem_wf_entry [OF assms(1)] have "q = getZipPath directoryPaths" by blast
  with hit(4) assms(2) show ?thesis by simp
next
  case (miss s1)
  then show ?thesis by simp
qed

text \<open>
  Claim C6.  When the cache manager holds, for the key of a directory list, a path whose
  file no longer exists, \<open>getCachedZip\<close> returns \<open>null\<close>, and it removes the entry unless the
  cache manager itself fails; whatever the state, a path that \<open>getCachedZip\<close> returns names a
  file that exists.  The entries are the ones the service wrote (\<open>mem_wf\<close>).
\<close>

theorem getCachedZip_discards_stale_entry:
  assumes "mem_wf s"
    and "map_of (mem s) (generateCacheKey directoryPaths) = Some p"
    and "\<not> fileExists s p"
  shows "fst (getCachedZip directoryPaths s) = None
       \<and> (faults s = [] \<longrightarrow>
            map_of (mem (snd (getCachedZip directoryPaths s))) (generateCacheKey directoryPaths) = None)
       \<and> (\<forall>otherPaths s0 q. fst (getCachedZip otherPaths s0) = Some q \<longrightarrow>
            fileExists s0 q \<and> fileExists (snd (getCachedZip otherPaths s0)) q)"
proof -
  from mem_wf_entry [OF assms(1,2)] have p: "p = getZipPath directoryPaths" .
  with assms(3) have u: "\<not> fileExists s (getZipPath directoryPaths)" by simp
  have 1: "fst (getCachedZip directoryPaths s) = None"
    using assms(1) u by (rule getCachedZip_uncached)
  have 2: "map_of (mem (snd (getCachedZip directoryPaths s))) (generateCacheKey directoryPaths) = None"
    if "faults s = []"
  proof (cases rule: getCachedZip_cases [where directoryPaths = directoryPaths and s = s])
    case (hit s1 q)
    with 1 show ?thesis by simp
  next
    case (miss s1)
    from p have "p \<noteq> []" by (simp add: getZipPath_nonempty)
    with miss(5) that assms(2) have "map_of (mem s1) (generateCacheKey directoryPaths) = None"
      by blast
    with miss(1) show ?thesis by simp
  qed
  have 3: "fileExists s0 q \<and> fileExists (snd (getCachedZip otherPaths s0)) q"
    if "fst (getCachedZip otherPaths s0) = Some q" for otherPaths s0 q
    using getCachedZip_exists [OF that] getCachedZip_files [of otherPaths s0]
    by (simp add: fileExists_def)
  from 1 2 3 show ?thesis by blast
qed

theorem getCachedZip_discards_stale_entry_witness:
  "mem_wf stale_cache_state
   \<and> map_of (mem stale_cache_state) (generateCacheKey [''events/wedding''])
       = Some (getZipPath [''events/wedding''])
   \<and> \<not> fileExists stale_cache_state (getZipPath [''events/wedding''])
   \<and> faults stale_cache_state = []
   \<and> fst (getCachedZip [''events/wedding''] stale_cache_state) = None
   \<and> map_of (mem (snd (getCachedZip [''events/wedding''] stale_cache_state)))
        (generateCacheKey [''events/wedding'']) = None"
proof -
  have h1: "mem_wf stale_cache_state"
    unfolding mem_wf_def stale_cache_state_def by (simp, intro exI [of _ "[''events/wedding'']"]) simp
  have h2: "map_of (mem stale_cache_state) (generateCacheKey [''events/wedding''])
       = Some (getZipPath [''events/wedding''])"
    by (simp add: stale_cache_state_def)
  have h3: "\<not> fileExists stale_cache_state (getZipPath [''events/wedding''])"
    by (simp add: stale_cache_state_def fileExists_def)
  have h4: "faults stale_cache_state = []" by (simp add: stale_cache_state_def)
  from getCachedZip_discards_stale_entry [OF h1 h2 h3] h1 h2 h3 h4 show ?thesis by blast
qed

lemma getCachedZip_cached:
  assumes "mem_wf s" and "fileExists s (getZipPath directoryPaths)"
  shows "fst (getCachedZip directoryPaths s) = Some (getZipPath directoryPaths)"
proof (cases rule: getCachedZip_cases [where directoryPaths = directoryPaths and s = s])
  case (hit s1 q)
  from hit(5) mem_wf_entry [OF assms(1)] have "q = getZipPath directoryPaths" by blast
  with hit(1) show ?thesis by simp
next
  case (miss s1)
  with assms(2) show ?thesis by simp
qed

section \<open>Properties of the download handler\<close>

lemma download_uncached:
  assumes "mem_wf s" and "\<not> fileExists s (getZipPath directoryPaths)"
  shows "fst (download directoryPaths s) = RealTimeStream directoryPaths
       \<and> files (snd (download directoryPaths s)) = files s
       \<and> mem_wf (snd (download directoryPaths s))"
proof -
  obtain r s1 where g: "getCachedZip directoryPaths s = (r, s1)"
    by (cases "getCachedZip directoryPaths s")
  from getCachedZip_uncached [OF assms] g have r: "r = None" by simp
  from getCachedZip_files [of directoryPaths s] g have f: "files s1 = files s" by simp
  from mem_wf_getCachedZip [OF assms(1), of directoryPaths] g have m: "mem_wf s1" by simp
  from g r f m show ?thesis by (simp add: download_def)
qed

lemma download_cached:
  assumes "mem_wf s" and "fileExists s (getZipPath directoryPaths)"
  shows "fst (download directoryPaths s) = ServeCachedFile (getZipPath directoryPaths)
       \<and> files (snd (download directoryPaths s)) = files s
       \<and> mem_wf (snd (download directoryPaths s))"
proof -
  obtain r s1 where g: "getCachedZip directoryPaths s = (r, s1)"
    by (cases "getCachedZip directoryPaths s")
  from getCachedZip_cached [OF assms] g have r: "r = Some (getZipPath directoryPaths)" by simp
  from getCachedZip_files [of directoryPaths s] g have f: "files s1 = files s" by simp
  from mem_wf_getCachedZip [OF assms(1), of directoryPaths] g have m: "mem_wf s1" by simp
  from g r f m show ?thesis by (simp add: download_def getZipPath_nonempty)
qed

lemma downloads_replicate:
  assumes step: "\<And>s. P s \<Longrightarrow> fst (download directoryPaths s) = r \<and> P (snd (download directoryPaths s))"
    and "P s"
  shows "fst (downloads (replicate n directoryPaths) s) = replicate n r
       \<and> P (snd (downloads (replicate n directoryPaths) s))"
  using assms(2)
proof (induction n arbitrary: s)
  case 0
  then show ?case by simp
next
  case (Suc n)
  obtain r1 s1 where d: "download directoryPaths s = (r1, s1)"
    by (cases "download directoryPaths s")
  from step [OF Suc.prems] d have r: "r1 = r" and p: "P s1" by simp_all
  obtain rs s2 where ds: "downloads (replicate n directoryPaths) s1 = (rs, s2)"
    by (cases "downloads (replicate n directoryPaths) s1")
  from Suc.IH [OF p] ds have "rs = replicate n r" "P s2" by simp_all
  with d r ds show ?case by simp
qed

lemma downloads_uncached:
  assumes "mem_wf s" and "\<not> fileExists s (getZipPath directoryPaths)"
  shows "fst (downloads (replicate n directoryPaths) s) = replicate n (RealTimeStream directoryPaths)
       \<and> files (snd (downloads (replicate n directoryPaths) s)) = files s"
proof -
  have "fst (downloads (replicate n directoryPaths) s) = replicate n (RealTimeStream directoryPaths)
      \<and> (mem_wf (snd (downloads (replicate n directoryPaths) s))
         \<and> files (snd (downloads (replicate n directoryPaths) s)) = files s)"
  proof (rule downloads_replicate [where P = "\<lambda>t. mem_wf t \<and> files t = files s"])
    fix t assume t: "mem_wf t \<and> files t = files s"
    with assms(2) have "\<not> fileExists t (getZipPath directoryPaths)" by (simp add: fileExists_def)
    from download_uncached [OF conjunct1 [OF t] this] t
    show "fst (download directoryPaths t) = RealTimeStream directoryPaths
        \<and> (mem_wf (snd (download directoryPaths t)) \<and> files (snd (download directoryPaths t)) = files s)"
      by simp
  next
    from assms(1) show "mem_wf s \<and> files s = files s" by simp
  qed
  then show ?thesis by blast
qed

lemma downloads_cached:
  assumes "mem_wf s" and "fileExists s (getZipPath directoryPaths)"
  shows "fst (downloads (replicate n directoryPaths) s)
           = replicate n (ServeCachedFile (getZipPath directoryPaths))
       \<and> files (snd (downloads (replicate n directoryPaths) s)) = files s"
proof -
  have "fst (downloads (replicate n directoryPaths) s)
          = replicate n (ServeCachedFile (getZipPath directoryPaths))
      \<and> (mem_wf (snd (downloads (replicate n directoryPaths) s))
         \<and> files (snd (downloads (replicate n directoryPaths) s)) = files s)"
  proof (rule downloads_replicate [where P = "\<lambda>t. mem_wf t \<and> files t = files s"])
    fix t assume t: "mem_wf t \<and> files t = files s"
    with assms(2) have "fileExists t (getZipPath directoryPaths)" by (simp add: fileExists_def)
    from download_cached [OF conjunct1 [OF t] this] t
    show "fst (download directoryPaths t) = ServeCachedFile (getZipPath directoryPaths)
        \<and> (mem_wf (snd (download directoryPaths t)) \<and> files (snd (download directoryPaths t)) = files s)"
      by simp
  next
    from assms(1) show "mem_wf s \<and> files s = files s" by simp
  qed
  then show ?thesis by blast
qed

lemma assembliesStarted_streams:
  "assembliesStarted (replicate n (RealTimeStream directoryPaths)) = n"
  by (simp add: assembliesStarted_def)

lemma assembliesStarted_served:
  "assembliesStarted (replicate n (ServeCachedFile p)) = 0"
  by (simp add: assembliesStarted_def)

lemma preGenerateZips_skips:
  "fileExists s (getZipPath directoryPaths) \<Longrightarrow>
     preGenerateZips base pfs (replicate n (directoryPaths, env)) s = s"
  by (induction n) simp_all

lemma empty_cache_state_uncached:
  "mem_wf empty_cache_state" "\<not> fileExists empty_cache_state p"
  by (simp_all add: mem_wf_def fileExists_def empty_cache_state_def)

lemma stored_cache_state_cached:
  "mem_wf stored_cache_state" "fileExists stored_cache_state (getZipPath [''events/wedding''])"
  by (simp_all add: mem_wf_def fileExists_def stored_cache_state_def)

text \<open>
  Claim C2, as amended.  Neither the download handler nor the scheduled pre-generation
  elects a leader for a key.  The handler never assembles into the cache: while no archive
  is stored for the key, each of \<open>N\<close> requests for it gets its own real-time stream, so \<open>N\<close>
  assemblies are started, none of them changes the cache files, and no request fails.
  Once the archive of the key is stored, every request is served the stored file, no
  assembly is started, and the pre-generation skips the key.  The lookups of the requests
  are taken one after the other.
\<close>

theorem downloads_uncached_start_one_assembly_each:
  assumes "mem_wf s"
  shows "(\<not> fileExists s (getZipPath directoryPaths) \<longrightarrow>
            fst (downloads (replicate n directoryPaths) s)
              = replicate n (RealTimeStream directoryPaths)
          \<and> assembliesStarted (fst (downloads (replicate n directoryPaths) s)) = n)
       \<and> (fileExists s (getZipPath directoryPaths) \<longrightarrow>
            fst (downloads (replicate n directoryPaths) s)
              = replicate n (ServeCachedFile (getZipPath directoryPaths))
          \<and> assembliesStarted (fst (downloads (replicate n directoryPaths) s)) = 0
          \<and> preGenerateZips base pfs (replicate n (directoryPaths, env)) s = s)
       \<and> files (snd (downloads (replicate n directoryPaths) s)) = files s"
proof (cases "fileExists s (getZipPath directoryPaths)")
  case True
  from downloads_cached [OF assms True, of n] preGenerateZips_skips [OF True, of base pfs n env]
    True
  show ?thesis by (simp add: assembliesStarted_served)
next
  case False
  from downloads_uncached [OF assms False, of n] False
  show ?thesis by (simp add: assembliesStarted_streams)
qed

text \<open>
  An instance of claim C2: three requests for the directory \<open>events/wedding\<close>, on an empty
  cache and on a cache that holds the archive.
\<close>

theorem downloads_uncached_start_one_assembly_each_witness:
  "mem_wf empty_cache_state
   \<and> \<not> fileExists empty_cache_state (getZipPath [''events/wedding''])
   \<and> fst (downloads (replicate 3 [''events/wedding'']) empty_cache_state)
       = replicate 3 (RealTimeStream [''events/wedding''])
   \<and> assembliesStarted (fst (downloads (replicate 3 [''events/wedding'']) empty_cache_state)) = 3
   \<and> mem_wf stored_cache_state
   \<and> fileExists stored_cache_state (getZipPath [''events/wedding''])
   \<and> fst (downloads (replicate 3 [''events/wedding'']) stored_cache_state)
       = replicate 3 (ServeCachedFile (getZipPath [''events/wedding'']))
   \<and> assembliesStarted (fst (downloads (replicate 3 [''events/wedding'']) stored_cache_state)) = 0"
  using downloads_uncached_start_one_assembly_each
    [where s = empty_cache_state and directoryPaths = "[''events/wedding'']" and n = 3]
    downloads_uncached_start_one_assembly_each
    [where s = stored_cache_state and directoryPaths = "[''events/wedding'']" and n = 3]
    empty_cache_state_uncached(1)
    empty_cache_state_uncached(2) [of "getZipPath [''events/wedding'']"]
    stored_cache_state_cached
  by blast

text \<open>
  Claim C2 as stated fails already for two requests: on an empty cache both requests for
  the directory \<open>events/wedding\<close> start an assembly.
\<close>

theorem downloads_two_assemblies_counterexample:
  "\<not> fileExists empty_cache_state (getZipPath [''events/wedding''])
   \<and> fst (downloads [[''events/wedding''], [''events/wedding'']] empty_cache_state)
       = [RealTimeStream [''events/wedding''], RealTimeStream [''events/wedding'']]
   \<and> assembliesStarted
        (fst (downloads [[''events/wedding''], [''events/wedding'']] empty_cache_state)) = 2"
proof -
  have r: "replicate 2 x = [x, x]" for x :: "'a" by (simp add: numeral_2_eq_2)
  from downloads_uncached [OF empty_cache_state_uncached(1) empty_cache_state_uncached(2),
      where directoryPaths = "[''events/wedding'']" and n = 2]
  have d: "fst (downloads [[''events/wedding''], [''events/wedding'']] empty_cache_state)
       = [RealTimeStream [''events/wedding''], RealTimeStream [''events/wedding'']]"
    by (simp only: r)
  have "assembliesStarted [RealTimeStream [''events/wedding''], RealTimeStream [''events/wedding'']] = 2"
    by (simp add: assembliesStarted_def)
  with d empty_cache_state_uncached(2) [of "getZipPath [''events/wedding'']"] show ?thesis
    by simp
qed

section \<open>Properties of the archive generation\<close>





lemma tmp_path_differs: "p @ ''.tmp'' \<noteq> p"
  by simp













end
